theory Spec2Isabelle
  imports Complex_Main "HOL-Library.Word"
begin

unbundle bit_operations_syntax

section \<open>The environment of the program\<close>

text \<open>
  The program talks to three things it does not own: the millisecond tick counter
  (\<^verbatim>\<open>time.ticks_ms()\<close>), the serial-data pin of the converter (\<^verbatim>\<open>so.value()\<close>) and the
  operator's keyboard (\<^verbatim>\<open>read_keyboard()\<close>). Each is a stream of answers, indexed by the
  number of calls made so far; the program state counts the calls.
\<close>

record world =
  clk :: "nat \<Rightarrow> int"
  so_line :: "nat \<Rightarrow> bool"
  keys :: "nat \<Rightarrow> string option"

section \<open>The MAX6675 driver\<close>

text \<open>
  The three pins. Every access is appended to \<open>trace\<close>, so that what the driver does on
  the bus can be observed; \<open>so_reads\<close> counts the samples taken from the data line.
\<close>

datatype bus_event = Cs bool | Sck bool | So bool | Sleep_us nat

record bus =
  cs_level :: bool
  sck_level :: bool
  so_reads :: nat
  trace :: "bus_event list"

definition cs_value :: "bool \<Rightarrow> bus \<Rightarrow> bus" where
  "cs_value x b = b\<lparr>cs_level := x, trace := trace b @ [Cs x]\<rparr>"

definition sck_value :: "bool \<Rightarrow> bus \<Rightarrow> bus" where
  "sck_value x b = b\<lparr>sck_level := x, trace := trace b @ [Sck x]\<rparr>"

definition so_value :: "world \<Rightarrow> bus \<Rightarrow> bool \<times> bus" where
  "so_value w b =
     (so_line w (so_reads b),
      b\<lparr>so_reads := Suc (so_reads b), trace := trace b @ [So (so_line w (so_reads b))]\<rparr>)"

definition sleep_us :: "nat \<Rightarrow> bus \<Rightarrow> bus" where
  "sleep_us n b = b\<lparr>trace := trace b @ [Sleep_us n]\<rparr>"

text \<open>\<^verbatim>\<open>MAX6675.__init__\<close>: the only effect on the bus is \<^verbatim>\<open>self.cs.value(1)\<close>.\<close>

definition init_sensor :: "bus \<Rightarrow> bus" where
  "init_sensor b = cs_value True b"

text \<open>
  The body of \<^verbatim>\<open>for _ in range(16)\<close>, with the number of pulses still to do as the
  recursion argument. \<open>v\<close> is the Python integer \<^verbatim>\<open>value\<close>, which has no width.
\<close>

fun read_bits :: "world \<Rightarrow> nat \<Rightarrow> int \<Rightarrow> bus \<Rightarrow> int \<times> bus" where
  "read_bits w 0 v b = (v, b)"
| "read_bits w (Suc n) v b =
     (let b1 = sck_value True b;
          v1 = push_bit 1 v;
          (s, b2) = so_value w b1;
          v2 = (if s then v1 OR 1 else v1);
          b3 = sck_value False b2
      in read_bits w n v2 b3)"

text \<open>
  \<^verbatim>\<open>MAX6675.read\<close>. \<open>None\<close> is Python's \<^verbatim>\<open>None\<close>, the fault signal. The product
  \<^verbatim>\<open>value * 0.25\<close> is a float; \<open>value\<close> is an integer below \<open>2 ^ 13\<close> there, so the
  product is exact in binary floating point and the real number is the float.
\<close>

definition read :: "world \<Rightarrow> bus \<Rightarrow> real option \<times> bus" where
  "read w b =
     (let b1 = cs_value False b;
          b2 = sleep_us 10 b1;
          (v, b3) = read_bits w 16 0 b2;
          b4 = cs_value True b3
      in if v AND 4 \<noteq> 0 then (None, b4)
         else (Some (real_of_int (drop_bit 3 v) * 0.25), b4))"

text \<open>
  The value of the local variable \<^verbatim>\<open>value\<close> of \<^verbatim>\<open>read\<close> when its loop is left
  (line 54 of the source): the word the driver has assembled.
\<close>

definition assembled :: "world \<Rightarrow> bus \<Rightarrow> int" where
  "assembled w b = fst (read_bits w 16 0 (sleep_us 10 (cs_value False b)))"

text \<open>What one iteration of the loop of \<^verbatim>\<open>read\<close> puts on the bus, at sample \<open>k\<close>.\<close>

definition pulse :: "world \<Rightarrow> nat \<Rightarrow> bus_event list" where
  "pulse w k = [Sck True, So (so_line w k), Sck False]"

section \<open>The acquisition program\<close>

definition SAMPLING_INTERVAL :: real where
  "SAMPLING_INTERVAL = 1"

definition TOTAL_SAMPLES :: nat where
  "TOTAL_SAMPLES = 180"

text \<open>
  A line printed on the console. The two formatted lines keep their arguments instead of
  the formatted text: \<open>Sample_line\<close> is \<^verbatim>\<open>"{:.3f},{:.2f}".format(elapsed_time, temp)\<close>,
  \<open>File_line\<close> and \<open>Saved_line\<close> carry the tick count of the file name
  \<^verbatim>\<open>temp_<ticks>.csv\<close>.
\<close>

datatype line = Text string | Sample_line real real | File_line int | Saved_line int

text \<open>
  The module's variables, the pins, the console, the files written and the number of calls
  made so far to the tick counter and to the keyboard. A file is the tick count of its name,
  its header line and its rows (the pairs that \<^verbatim>\<open>write_csv\<close> formats).
\<close>

record state =
  pins :: bus
  ticks_calls :: nat
  polls :: nat
  console :: "line list"
  sleeps :: "real list"
  files :: "(int \<times> string \<times> (real \<times> real) list) list"
  t0 :: int
  paused_time :: int
  pause_start :: "int option"
  paused :: bool
  sample_count :: nat
  data :: "(real \<times> real) list"

definition ticks_ms :: "world \<Rightarrow> state \<Rightarrow> int \<times> state" where
  "ticks_ms w s = (clk w (ticks_calls s), s\<lparr>ticks_calls := Suc (ticks_calls s)\<rparr>)"

text \<open>
  Modelled from the spec: \<^verbatim>\<open>time.ticks_diff\<close> is a function of the MicroPython library,
  not of this repository. The spec reads \<^verbatim>\<open>ticks_diff(a, b)\<close> as the difference
  \<open>a - b\<close> of two timestamps, which is what the library computes as long as the tick
  counter has not wrapped around between \<open>b\<close> and \<open>a\<close>.
\<close>

definition ticks_diff :: "int \<Rightarrow> int \<Rightarrow> int" where
  "ticks_diff a b = a - b"

text \<open>
  \<^verbatim>\<open>read_keyboard\<close>: \<open>None\<close> when no line is waiting, else the line, stripped. The
  stream \<open>keys\<close> holds the results.
\<close>

definition read_keyboard :: "world \<Rightarrow> state \<Rightarrow> string option \<times> state" where
  "read_keyboard w s = (keys w (polls s), s\<lparr>polls := Suc (polls s)\<rparr>)"

definition py_print :: "line \<Rightarrow> state \<Rightarrow> state" where
  "py_print l s = s\<lparr>console := console s @ [l]\<rparr>"

definition time_sleep :: "real \<Rightarrow> state \<Rightarrow> state" where
  "time_sleep d s = s\<lparr>sleeps := sleeps s @ [d]\<rparr>"

definition write_csv :: "int \<Rightarrow> (real \<times> real) list \<Rightarrow> state \<Rightarrow> state" where
  "write_csv filename rows s =
     py_print (Saved_line filename)
       (s\<lparr>files := files s @ [(filename, ''time_seconds,temperature_C'', rows)]\<rparr>)"

text \<open>How an iteration of the \<^verbatim>\<open>while\<close> loop ends.\<close>

datatype ctl = Continue | Break | Raise_TypeError

text \<open>
  Lines 114 to 126: the keyboard is polled once and the command, if any, is applied.
  \<^verbatim>\<open>ticks_diff(pause_end, pause_start)\<close> raises a TypeError when \<^verbatim>\<open>pause_start\<close> is
  \<^verbatim>\<open>None\<close>.
\<close>

definition command :: "world \<Rightarrow> state \<Rightarrow> ctl \<times> state" where
  "command w s =
     (let (key, s1) = read_keyboard w s in
      if key = Some ''p'' \<and> \<not> paused s1 then
        (let (t, s2) = ticks_ms w (s1\<lparr>paused := True\<rparr>)
         in (Continue, py_print (Text ''PAUSED'') (s2\<lparr>pause_start := Some t\<rparr>)))
      else if key = Some ''r'' \<and> paused s1 then
        (let (pause_end, s2) = ticks_ms w (s1\<lparr>paused := False\<rparr>)
         in case pause_start s2 of
              None \<Rightarrow> (Raise_TypeError, s2)
            | Some ps \<Rightarrow>
                (Continue,
                 py_print (Text ''RESUMED'')
                   (s2\<lparr>paused_time := paused_time s2 + ticks_diff pause_end ps\<rparr>)))
      else if key = Some ''q'' then (Break, py_print (Text ''STOP'') s1)
      else (Continue, s1))"

text \<open>Lines 130 to 143: the branch taken when the program is not paused.\<close>

definition acquire :: "world \<Rightarrow> state \<Rightarrow> state" where
  "acquire w s =
     (let (t_now, s1) = ticks_ms w s;
          elapsed_time = real_of_int (ticks_diff t_now (t0 s1) - paused_time s1) / 1000;
          (temp, b) = read w (pins s1);
          s2 = s1\<lparr>pins := b\<rparr>;
          s3 = (case temp of
                  Some t \<Rightarrow>
                    (py_print (Sample_line elapsed_time t) s2)
                      \<lparr>data := data s2 @ [(elapsed_time, t)],
                       sample_count := Suc (sample_count s2)\<rparr>
                | None \<Rightarrow> py_print (Text ''ERROR: Thermocouple disconnected'') s2)
      in time_sleep SAMPLING_INTERVAL s3)"

text \<open>One iteration of the \<^verbatim>\<open>while\<close> loop, lines 113 to 145.\<close>

definition body :: "world \<Rightarrow> state \<Rightarrow> ctl \<times> state" where
  "body w s =
     (case command w s of
        (Continue, s1) \<Rightarrow>
          if \<not> paused s1 then (Continue, acquire w s1)
          else (Continue, time_sleep 0.1 s1)
      | (c, s1) \<Rightarrow> (c, s1))"

text \<open>
  The \<^verbatim>\<open>while\<close> loop. Nothing bounds the number of its iterations (a paused program or
  a disconnected thermocouple keep it going), so it runs on fuel: \<open>None\<close> means that the
  fuel did not suffice. A result says how the loop was left.
\<close>

datatype exit = Quota | Quit | TypeError

fun loop :: "world \<Rightarrow> nat \<Rightarrow> state \<Rightarrow> (exit \<times> state) option" where
  "loop w 0 s = (if sample_count s < TOTAL_SAMPLES then None else Some (Quota, s))"
| "loop w (Suc n) s =
     (if sample_count s < TOTAL_SAMPLES then
        (case body w s of
           (Continue, s') \<Rightarrow> loop w n s'
         | (Break, s') \<Rightarrow> Some (Quit, s')
         | (Raise_TypeError, s') \<Rightarrow> Some (TypeError, s'))
      else Some (Quota, s))"

text \<open>
  Lines 63 to 108: the module's code before the loop, from the bus as it is at power-up.
  The result is the tick count of the file name and the state at the first test of the
  loop's guard.
\<close>

definition start :: "world \<Rightarrow> bus \<Rightarrow> int \<times> state" where
  "start w b =
     (let s0 = \<lparr>pins = init_sensor b, ticks_calls = 0, polls = 0, console = [], sleeps = [],
                files = [], t0 = 0, paused_time = 0, pause_start = None, paused = False,
                sample_count = 0, data = []\<rparr>;
          (csv_filename, s1) = ticks_ms w s0;
          s2 = py_print (Text ''START'') s1;
          s3 = py_print (Text ''Duracion: 3 minutos (180 muestras a 1 Hz)'') s2;
          s4 = py_print (File_line csv_filename) s3;
          s5 = py_print
                 (Text ''Presiona 'p' para pausar, 'r' para reanudar, 'q' para salir'') s4;
          (t, s6) = ticks_ms w s5
      in (csv_filename,
          s6\<lparr>t0 := t, paused_time := 0, pause_start := None, paused := False,
             sample_count := 0\<rparr>))"

text \<open>Lines 155 to 159: the samples are written once, if there are any.\<close>

definition finish :: "int \<Rightarrow> state \<Rightarrow> state" where
  "finish csv_filename s =
     (if data s \<noteq> [] then write_csv csv_filename (data s) s
      else py_print (Text ''Sin datos para guardar.'') s)"

text \<open>
  The whole program. Line 147 prints \<^verbatim>\<open>STOP\<close> when the loop is left, by its guard or by
  \<^verbatim>\<open>break\<close>. A TypeError is not caught: the program ends there. The asynchronous
  \<^verbatim>\<open>KeyboardInterrupt\<close> is not part of the model.
\<close>

definition main :: "world \<Rightarrow> nat \<Rightarrow> bus \<Rightarrow> (exit \<times> state) option" where
  "main w fuel b =
     (let (csv_filename, s) = start w b in
      case loop w fuel s of
        None \<Rightarrow> None
      | Some (TypeError, s') \<Rightarrow> Some (TypeError, s')
      | Some (e, s') \<Rightarrow> Some (e, finish csv_filename (py_print (Text ''STOP'') s')))"

text \<open>The states in which the guard of the loop is tested.\<close>

inductive top_of_loop :: "world \<Rightarrow> bus \<Rightarrow> state \<Rightarrow> bool" for w :: world and b :: bus where
  first: "top_of_loop w b (snd (start w b))"
| next_iteration:
    "top_of_loop w b s \<Longrightarrow> sample_count s < TOTAL_SAMPLES \<Longrightarrow> body w s = (Continue, s')
       \<Longrightarrow> top_of_loop w b s'"

section \<open>An invariant of the timing variables\<close>

text \<open>
  What the loop keeps true of the stored elapsed times: they are in order, and none exceeds
  the elapsed time that a sample taken at any later reading of the clock would get. While
  the program is paused the bound is frozen at the time the pause began.
\<close>

definition timing_inv :: "world \<Rightarrow> state \<Rightarrow> bool" where
  "timing_inv w s \<longleftrightarrow>
     sorted (map fst (data s)) \<and>
     (if paused s then
        (\<exists>ps. pause_start s = Some ps \<and> (\<forall>i\<ge>ticks_calls s. ps \<le> clk w i) \<and>
           (\<forall>e\<in>set (data s). fst e \<le> real_of_int (ps - t0 s - paused_time s) / 1000))
      else
        (\<forall>i\<ge>ticks_calls s. \<forall>e\<in>set (data s).
           fst e \<le> real_of_int (clk w i - t0 s - paused_time s) / 1000))"

section \<open>The specification's account of elapsed time\<close>

text \<open>
  The specification describes the run state and the time accounting in its own words:
  the run is Running or Paused; \<^verbatim>\<open>p\<close> while Running begins a pause at the current
  timestamp, \<^verbatim>\<open>r\<close> while Paused ends it and adds its length (now minus the timestamp at
  which it began) to the cumulative paused duration; every other command leaves both
  alone. A Running iteration takes a timestamp and, when the driver returns a temperature,
  stores a sample. The record below follows a run on these terms and nothing else: it
  does not look at \<^verbatim>\<open>paused\<close>, \<^verbatim>\<open>pause_start\<close>, \<^verbatim>\<open>paused_time\<close> or \<^verbatim>\<open>t0\<close>.
  \<open>in_pause\<close> is \<open>None\<close> while Running and the timestamp at which the pause began while
  Paused; \<open>paused_total\<close> is the sum of the lengths of the completed pauses; \<open>sampled\<close>
  holds, for each stored sample in order, the timestamp at which it was taken and the
  cumulative paused duration at that moment.
\<close>

record timing =
  in_pause :: "int option"
  paused_total :: int
  sampled :: "(int \<times> int) list"

text \<open>
  A Running iteration in the specification's terms: \<open>k\<close> is the position in the clock
  stream of the timestamp it takes.
\<close>

definition spec_sample :: "world \<Rightarrow> state \<Rightarrow> nat \<Rightarrow> timing \<Rightarrow> timing" where
  "spec_sample w s k g =
     (case fst (read w (pins s)) of
        None \<Rightarrow> g
      | Some temp \<Rightarrow> g\<lparr>sampled := sampled g @ [(clk w k, paused_total g)]\<rparr>)"

text \<open>
  One iteration in the specification's terms, from the positions that the state \<open>s\<close>
  has reached in the keyboard and clock streams.
\<close>

definition spec_step :: "world \<Rightarrow> state \<Rightarrow> timing \<Rightarrow> timing" where
  "spec_step w s g =
     (let key = keys w (polls s); now = clk w (ticks_calls s) in
      case in_pause g of
        None \<Rightarrow>
          if key = Some ''p'' then g\<lparr>in_pause := Some now\<rparr>
          else spec_sample w s (ticks_calls s) g
      | Some began \<Rightarrow>
          if key = Some ''r'' then
            spec_sample w s (Suc (ticks_calls s))
              (g\<lparr>in_pause := None, paused_total := paused_total g + (now - began)\<rparr>)
          else g)"

text \<open>
  The states in which the guard of the loop is tested, each with the specification's
  account of the run that led to it.
\<close>

inductive timed :: "world \<Rightarrow> bus \<Rightarrow> state \<Rightarrow> timing \<Rightarrow> bool" for w :: world and b :: bus where
  timed_first:
    "timed w b (snd (start w b)) \<lparr>in_pause = None, paused_total = 0, sampled = []\<rparr>"
| timed_next:
    "timed w b s g \<Longrightarrow> sample_count s < TOTAL_SAMPLES \<Longrightarrow> body w s = (Continue, s')
       \<Longrightarrow> timed w b s' (spec_step w s g)"

text \<open>
  The elapsed time that the specification assigns to a sample taken at timestamp \<open>t\<close>
  with cumulative paused duration \<open>p\<close>, in a run started at timestamp \<open>began\<close>.
\<close>

definition spec_elapsed :: "int \<Rightarrow> int \<times> int \<Rightarrow> real" where
  "spec_elapsed began tp = real_of_int ((fst tp - began) - snd tp) / 1000"

text \<open>
  The program's variables agree with the specification's account: the start timestamp is
  the second reading of the clock (the first names the file), the program is paused
  exactly when the account is in a pause, \<^verbatim>\<open>pause_start\<close> is then the timestamp at which
  that pause began, \<^verbatim>\<open>paused_time\<close> is the cumulative paused duration, and the stored
  elapsed times are those the specification assigns.
\<close>

definition agrees :: "world \<Rightarrow> state \<Rightarrow> timing \<Rightarrow> bool" where
  "agrees w s g \<longleftrightarrow>
     t0 s = clk w 1 \<and> paused s = (in_pause g \<noteq> None) \<and>
     (paused s \<longrightarrow> pause_start s = in_pause g) \<and>
     paused_time s = paused_total g \<and>
     map fst (data s) = map (spec_elapsed (clk w 1)) (sampled g)"

section \<open>Example environments\<close>

text \<open>
  A converter that sends the word 800 (bit 2 clear, temperature field 100) on every read,
  a silent keyboard and a clock that advances by one tick per call; and a bus at rest.
\<close>

definition steady_world :: world where
  "steady_world =
     \<lparr>clk = int, so_line = (\<lambda>k. bit (800 :: 16 word) (15 - k mod 16)), keys = Map.empty\<rparr>"

definition idle_bus :: bus where
  "idle_bus = \<lparr>cs_level = True, sck_level = False, so_reads = 0, trace = []\<rparr>"

text \<open>
  A data line that is high at the first sample and low ever after: the word has bit 15
  set and nothing else.
\<close>

definition sign_bit_world :: world where
  "sign_bit_world = \<lparr>clk = int, so_line = (\<lambda>k. k = 0), keys = Map.empty\<rparr>"

text \<open>
  A disconnected thermocouple (the data line is high at every sample, so bit 2 is set); and
  an operator who types \<^verbatim>\<open>q\<close> at the second poll of the keyboard.
\<close>

definition open_world :: world where
  "open_world = \<lparr>clk = int, so_line = (\<lambda>k. True), keys = Map.empty\<rparr>"

definition quit_world :: world where
  "quit_world =
     \<lparr>clk = (\<lambda>k. 1000 * int k), so_line = (\<lambda>k. bit (800 :: 16 word) (15 - k mod 16)),
      keys = (\<lambda>k. if k = 1 then Some ''q'' else None)\<rparr>"

text \<open>
  An operator who pauses at the second poll and resumes at the fourth, with a clock that
  advances by one second per call.
\<close>

definition pause_world :: world where
  "pause_world =
     \<lparr>clk = (\<lambda>k. 1000 * int k), so_line = (\<lambda>k. bit (800 :: 16 word) (15 - k mod 16)),
      keys = (\<lambda>k. if k = 1 then Some ''p'' else if k = 3 then Some ''r'' else None)\<rparr>"

text \<open>The state of the program in that environment after \<open>k\<close> iterations of the loop.\<close>

definition pause_run :: "nat \<Rightarrow> state" where
  "pause_run k = ((\<lambda>s. snd (body pause_world s)) ^^ k) (snd (start pause_world idle_bus))"

section \<open>The driver: the word it assembles\<close>

lemma read_bits_Suc:
  "read_bits w (Suc n) v b =
     read_bits w n (if so_line w (so_reads b) then push_bit 1 v OR 1 else push_bit 1 v)
       (b\<lparr>sck_level := False, so_reads := Suc (so_reads b),
          trace := trace b @ pulse w (so_reads b)\<rparr>)"
  by (cases b) (simp add: Let_def so_value_def sck_value_def pulse_def)

lemma bit_shift_in:
  "bit (if s then push_bit 1 v OR 1 else push_bit 1 (v::int)) k =
     (if k = 0 then s else bit v (k - 1))"
  by (auto simp: bit_or_iff bit_double_iff bit_1_iff mult.commute [of v 2])

lemma bit_read_bits:
  "bit (fst (read_bits w n v b)) j =
     (if j < n then so_line w (so_reads b + (n - 1 - j)) else bit v (j - n))"
proof (induction n arbitrary: v b)
  case 0 show ?case by simp
next
  case (Suc n)
  have "bit (fst (read_bits w (Suc n) v b)) j =
        (if j < n then so_line w (Suc (so_reads b) + (n - 1 - j))
         else if j = n then so_line w (so_reads b) else bit v (j - n - 1))"
    unfolding read_bits_Suc Suc bit_shift_in by simp
  also have "\<dots> = (if j < Suc n then so_line w (so_reads b + (Suc n - 1 - j))
                   else bit v (j - Suc n))"
    by (auto simp: less_Suc_eq Suc_diff_Suc)
  finally show ?case .
qed

lemma so_reads_read_bits: "so_reads (snd (read_bits w n v b)) = so_reads b + n"
  by (induction n arbitrary: v b) (simp_all add: read_bits_Suc del: read_bits.simps(2))

lemma cs_level_read_bits: "cs_level (snd (read_bits w n v b)) = cs_level b"
  by (induction n arbitrary: v b) (simp_all add: read_bits_Suc del: read_bits.simps(2))

lemma trace_read_bits:
  "trace (snd (read_bits w n v b)) =
     trace b @ concat (map (\<lambda>i. pulse w (so_reads b + i)) [0 ..< n])"
proof (induction n arbitrary: v b)
  case 0 show ?case by simp
next
  case (Suc n)
  show ?case
    unfolding read_bits_Suc Suc 
    by (simp add: upt_conv_Cons [of 0 "Suc n"] map_Suc_upt [symmetric] comp_def
          del: upt_Suc)
qed

lemma bit_assembled:
  "bit (assembled w b) j = (j < 16 \<and> so_line w (so_reads b + (15 - j)))"
  by (simp add: assembled_def bit_read_bits sleep_us_def cs_value_def)

lemma read_assembled:
  "fst (read w b) =
     (if assembled w b AND 4 \<noteq> 0 then None
      else Some (real_of_int (drop_bit 3 (assembled w b)) * 0.25))"
  by (simp add: read_def assembled_def Let_def split: prod.splits)

lemma and_4_iff: "(v::int) AND 4 \<noteq> 0 \<longleftrightarrow> bit v 2"
proof -
  have "(v AND 4 = 0) = (\<not> bit v 2)"
    using and_exp_eq_0_iff_not_bit [of v 2] by simp
  then show ?thesis by simp
qed

lemma assembled_word:
  fixes x :: "16 word"
  assumes "\<forall>i<16. so_line w (so_reads b + i) = bit x (15 - i)"
  shows "assembled w b = uint x"
proof (rule bit_eqI)
  fix j
  show "bit (assembled w b) j = bit (uint x) j"
  proof (cases "j < 16")
    case True
    have "15 - j < 16" by simp
    with assms have "so_line w (so_reads b + (15 - j)) = bit x (15 - (15 - j))"
      by blast
    moreover have "15 - (15 - j) = j" using True by simp
    ultimately have e: "so_line w (so_reads b + (15 - j)) = bit x j" by simp
    show ?thesis unfolding bit_assembled e using True by (simp add: bit_uint_iff)
  next
    case False
    then show ?thesis by (simp add: bit_assembled bit_uint_iff)
  qed
qed

lemma read_of_word:
  fixes x :: "16 word"
  assumes "\<forall>i<16. so_line w (so_reads b + i) = bit x (15 - i)"
  shows "assembled w b = uint x \<and>
         fst (read w b) =
           (if bit x 2 then None else Some (real (unat (drop_bit 3 x)) * 0.25))"
proof -
  have a: "assembled w b = uint x" by (rule assembled_word [OF assms])
  have "drop_bit 3 (uint x) = int (unat (drop_bit 3 x))"
    by (simp add: drop_bit_eq_div uint_div)
  then have d: "real_of_int (drop_bit 3 (uint x)) = real (unat (drop_bit 3 x))"
    by (simp only: of_int_of_nat_eq)
  have f: "bit (uint x) 2 = bit x 2" by (simp add: bit_uint_iff)
  show ?thesis unfolding read_assembled and_4_iff a f d by simp
qed


lemma snd_read: "snd (read w b) = cs_value True (snd (read_bits w 16 0 (sleep_us 10 (cs_value False b))))"
  by (simp add: read_def Let_def split: prod.splits)

lemma trace_read:
  "trace (snd (read w b)) =
     trace b @ [Cs False, Sleep_us 10] @
     concat (map (\<lambda>i. pulse w (so_reads b + i)) [0 ..< 16]) @ [Cs True]"
  by (simp add: snd_read cs_value_def trace_read_bits sleep_us_def del: upt_Suc)

lemma so_reads_read: "so_reads (snd (read w b)) = so_reads b + 16"
  by (simp add: snd_read cs_value_def so_reads_read_bits sleep_us_def)

lemma cs_level_read: "cs_level (snd (read w b))"
  by (simp add: snd_read cs_value_def)

lemma assembled_range: "0 \<le> assembled w b \<and> assembled w b < 2 ^ 16"
proof -
  have "take_bit 16 (assembled w b) = assembled w b"
    by (rule bit_eqI) (auto simp: bit_take_bit_iff bit_assembled)
  then show ?thesis
    using take_bit_nonnegative [of 16 "assembled w b"]
      take_bit_int_less_exp [of 16 "assembled w b"] by simp
qed

lemma count_pulses:
  "length (filter (\<lambda>e. e = Sck True) (concat (map (\<lambda>i. [Sck True, So (f i), Sck False]) [0 ..< n]))) = n"
  by (induction n) simp_all

section \<open>The claims about the driver\<close>

text \<open>
  Claim C1. For every 16-bit word \<open>x\<close> that the data line delivers to one call of
  \<^verbatim>\<open>read\<close>, most significant bit first, the driver assembles exactly \<open>x\<close>; if bit 2
  of \<open>x\<close> is set the call returns \<open>None\<close> (the fault signal, no temperature), and if
  bit 2 is clear it returns the temperature \<open>(x >> 3) * 0.25\<close>.
\<close>

theorem C1_decode:
  fixes x :: "16 word"
  assumes "\<forall>i<16. so_line w (so_reads b + i) = bit x (15 - i)"
  shows "assembled w b = uint x \<and>
         fst (read w b) =
           (if bit x 2 then None else Some (real (unat (drop_bit 3 x)) * 0.25))"
  using assms by (rule read_of_word)

theorem C1_decode_witness:
  "assembled steady_world idle_bus = 800 \<and> fst (read steady_world idle_bus) = Some 25"
  using C1_decode [of steady_world idle_bus 800] by (simp add: steady_world_def idle_bus_def)

text \<open>
  Claim C2. Whatever 16 bits the data line presents, one per clock pulse, a call of
  \<^verbatim>\<open>read\<close> does exactly 16 clock pulses (between lowering and raising chip-select it
  raises the clock, samples the line and lowers the clock, 16 times), and the bit sampled
  on pulse \<open>i\<close> is bit \<open>15 - i\<close> of the assembled value, which has no other bit set.
\<close>

theorem C2_msb_first:
  assumes "length bits = 16"
    and "\<forall>i<16. so_line w (so_reads b + i) = bits ! i"
  shows "(\<forall>i<16. bit (assembled w b) (15 - i) = bits ! i) \<and>
         0 \<le> assembled w b \<and> assembled w b < 2 ^ 16 \<and>
         trace (snd (read w b)) =
           trace b @ [Cs False, Sleep_us 10] @
           concat (map (\<lambda>i. [Sck True, So (bits ! i), Sck False]) [0 ..< 16]) @ [Cs True] \<and>
         length (filter (\<lambda>e. e = Sck True) (drop (length (trace b)) (trace (snd (read w b))))) = 16 \<and>
         so_reads (snd (read w b)) = so_reads b + 16"
proof -
  have bits: "\<forall>i<16. bit (assembled w b) (15 - i) = bits ! i"
  proof (intro allI impI)
    fix i :: nat
    assume i: "i < 16"
    then have "15 - (15 - i) = i" and "15 - i < 16" by simp_all
    with i show "bit (assembled w b) (15 - i) = bits ! i"
      unfolding bit_assembled using assms(2) by simp
  qed
  have "map (\<lambda>i. pulse w (so_reads b + i)) [0 ..< 16] =
        map (\<lambda>i. [Sck True, So (bits ! i), Sck False]) [0 ..< 16]"
    using assms(2) by (intro map_cong) (simp_all add: pulse_def)
  then have tr: "trace (snd (read w b)) =
           trace b @ [Cs False, Sleep_us 10] @
           concat (map (\<lambda>i. [Sck True, So (bits ! i), Sck False]) [0 ..< 16]) @ [Cs True]"
    unfolding trace_read by (simp only:)
  have "length (filter (\<lambda>e. e = Sck True) (drop (length (trace b)) (trace (snd (read w b))))) = 16"
    unfolding tr by (simp add: count_pulses del: upt_Suc)
  with bits tr assembled_range [of w b] so_reads_read [of w b] show ?thesis by blast
qed


theorem C2_msb_first_witness:
  "bit (assembled steady_world idle_bus) (15 - 6) \<and>
   \<not> bit (assembled steady_world idle_bus) (15 - 0) \<and>
   assembled steady_world idle_bus < 2 ^ 16 \<and>
   length (filter (\<lambda>e. e = Sck True)
     (drop (length (trace idle_bus)) (trace (snd (read steady_world idle_bus))))) = 16"
proof -
  let ?bits = "map (so_line steady_world) [0 ..< 16]"
  have l: "length ?bits = 16" by simp
  have h: "\<forall>i<16. so_line steady_world (so_reads idle_bus + i) = ?bits ! i"
    by (simp add: idle_bus_def del: upt_Suc)
  have b6: "?bits ! 6" and b0: "\<not> ?bits ! 0"
    by (simp_all add: steady_world_def del: upt_Suc)
  note c = C2_msb_first [OF l h]
  from c have a: "\<forall>i<16. bit (assembled steady_world idle_bus) (15 - i) = ?bits ! i"
    by (rule conjunct1)
  have a6: "bit (assembled steady_world idle_bus) (15 - 6)"
    using a [rule_format, of 6] b6 by simp
  have a0: "\<not> bit (assembled steady_world idle_bus) (15 - 0)"
    using a [rule_format, of 0] b0 by simp
  from c a6 a0 show ?thesis by blast
qed

lemma unat_msb_clear:
  fixes x :: "16 word"
  shows "unat x < 2 ^ 15 \<longleftrightarrow> \<not> bit x 15"
proof -
  have "unat x < 2 ^ 16" using unsigned_less [of x] by simp
  then have "unat x div 2 ^ 15 < 2" by simp
  moreover have "bit (unat x) 15 = bit x 15" by (simp add: bit_unsigned_iff)
  then have "bit x 15 = odd (unat x div 2 ^ 15)"
    by (simp only: bit_iff_odd)
  ultimately show ?thesis
    by (auto simp: div_eq_0_iff elim!: oddE)
qed

lemma quarter_le:
  fixes m :: nat
  shows "m \<le> 8191 \<Longrightarrow> real m * 0.25 \<le> 2047.75"
    and "m \<le> 4095 \<Longrightarrow> real m * 0.25 \<le> 1023.75"
    and "0 \<le> real m * 0.25"
  by simp_all

text \<open>
  Claim C3, as amended. For a 16-bit word \<open>x\<close> with bit 2 clear, the shift by 3 leaves
  the 13 bits 15 to 3 of \<open>x\<close>: a value in \<open>[0, 8191]\<close>, and a temperature that is a
  multiple of 0.25 in \<open>[0, 2047.75]\<close>. The value is a 12-bit magnitude, in
  \<open>[0, 4095]\<close>, exactly when bit 15 of \<open>x\<close> is clear as well; the temperature is then
  in \<open>[0, 1023.75]\<close>.
\<close>

theorem C3_magnitude:
  fixes x :: "16 word"
  assumes "\<forall>i<16. so_line w (so_reads b + i) = bit x (15 - i)"
    and "\<not> bit x 2"
  shows "fst (read w b) = Some (real (unat (drop_bit 3 x)) * 0.25) \<and>
         unat (drop_bit 3 x) \<le> 8191 \<and>
         (unat (drop_bit 3 x) \<le> 4095 \<longleftrightarrow> \<not> bit x 15) \<and>
         (\<exists>t. fst (read w b) = Some t \<and> 0 \<le> t \<and> t \<le> 2047.75 \<and>
              (\<not> bit x 15 \<longrightarrow> t \<le> 1023.75))"
proof -
  let ?m = "unat (drop_bit 3 x)"
  have r: "fst (read w b) = Some (real ?m * 0.25)"
    using read_of_word [OF assms(1)] assms(2) by simp
  have m: "?m = unat x div 8"
    by (simp add: drop_bit_eq_div unat_div)
  have "unat x < 2 ^ 16" using unsigned_less [of x] by simp
  then have le: "?m \<le> 8191" unfolding m by simp
  have iff: "?m \<le> 4095 \<longleftrightarrow> \<not> bit x 15"
    unfolding m unat_msb_clear [symmetric] by auto
  have "real ?m * 0.25 \<le> 2047.75" by (rule quarter_le(1) [OF le])
  moreover have "\<not> bit x 15 \<longrightarrow> real ?m * 0.25 \<le> 1023.75"
    using iff quarter_le(2) [of ?m] by blast
  moreover have "0 \<le> real ?m * 0.25" by (rule quarter_le(3))
  ultimately show ?thesis using r le iff by blast
qed

theorem C3_magnitude_witness:
  "fst (read steady_world idle_bus) = Some (100 * 0.25) \<and> (100::nat) \<le> 4095"
  using C3_magnitude [of steady_world idle_bus 800] by (simp add: steady_world_def idle_bus_def)

text \<open>
  The claim as it was stated fails at the word \<open>0x8000\<close>: bit 2 is clear, the shift
  gives 4096 and the temperature is 1024.
\<close>

theorem C3_counterexample:
  "\<not> bit (assembled sign_bit_world idle_bus) 2 \<and>
   assembled sign_bit_world idle_bus < 2 ^ 16 \<and>
   \<not> drop_bit 3 (assembled sign_bit_world idle_bus) \<le> 4095 \<and>
   fst (read sign_bit_world idle_bus) = Some 1024 \<and>
   \<not> (1024 :: real) \<le> 1023.75"
proof -
  have "\<forall>i<16. so_line sign_bit_world (so_reads idle_bus + i) = bit (32768 :: 16 word) (15 - i)"
  proof (intro allI impI)
    fix i :: nat
    assume "i < 16"
    have "(32768 :: 16 word) = 2 ^ 15" by simp
    then have "bit (32768 :: 16 word) (15 - i) = (15 - i = 15)"
      by (simp only: bit_exp_iff) auto
    with \<open>i < 16\<close>
    show "so_line sign_bit_world (so_reads idle_bus + i) = bit (32768 :: 16 word) (15 - i)"
      by (auto simp: sign_bit_world_def idle_bus_def)
  qed
  from read_of_word [OF this] assembled_range [of sign_bit_world idle_bus] show ?thesis by simp
qed

section \<open>The acquisition loop: one iteration\<close>

lemma key_names_differ: "''p'' \<noteq> ''q''" "''r'' \<noteq> ''q''" "''p'' \<noteq> ''r''" by simp_all

lemma command_cases:
  "command w s =
     (if keys w (polls s) = Some ''p'' \<and> \<not> paused s then
        (Continue, s\<lparr>polls := Suc (polls s), paused := True, ticks_calls := Suc (ticks_calls s),
                     pause_start := Some (clk w (ticks_calls s)),
                     console := console s @ [Text ''PAUSED'']\<rparr>)
      else if keys w (polls s) = Some ''r'' \<and> paused s then
        (case pause_start s of
           None \<Rightarrow> (Raise_TypeError,
                    s\<lparr>polls := Suc (polls s), paused := False, ticks_calls := Suc (ticks_calls s)\<rparr>)
         | Some ps \<Rightarrow>
             (Continue, s\<lparr>polls := Suc (polls s), paused := False,
                          ticks_calls := Suc (ticks_calls s),
                          paused_time := paused_time s + (clk w (ticks_calls s) - ps),
                          console := console s @ [Text ''RESUMED'']\<rparr>))
      else if keys w (polls s) = Some ''q'' then
        (Break, s\<lparr>polls := Suc (polls s), console := console s @ [Text ''STOP'']\<rparr>)
      else (Continue, s\<lparr>polls := Suc (polls s)\<rparr>))"
  by (simp add: command_def read_keyboard_def ticks_ms_def py_print_def ticks_diff_def Let_def
        split: option.splits)

lemma acquire_cases:
  "acquire w s =
     (case fst (read w (pins s)) of
        Some t \<Rightarrow>
          s\<lparr>ticks_calls := Suc (ticks_calls s), pins := snd (read w (pins s)),
            console := console s @
              [Sample_line (real_of_int (clk w (ticks_calls s) - t0 s - paused_time s) / 1000) t],
            data := data s @
              [(real_of_int (clk w (ticks_calls s) - t0 s - paused_time s) / 1000, t)],
            sample_count := Suc (sample_count s),
            sleeps := sleeps s @ [SAMPLING_INTERVAL]\<rparr>
      | None \<Rightarrow>
          s\<lparr>ticks_calls := Suc (ticks_calls s), pins := snd (read w (pins s)),
            console := console s @ [Text ''ERROR: Thermocouple disconnected''],
            sleeps := sleeps s @ [SAMPLING_INTERVAL]\<rparr>)"
  by (simp add: acquire_def ticks_ms_def py_print_def ticks_diff_def time_sleep_def Let_def
        split: option.splits prod.splits)

lemma command_keeps:
  "data (snd (command w s)) = data s"
  "sample_count (snd (command w s)) = sample_count s"
  "pins (snd (command w s)) = pins s"
  "t0 (snd (command w s)) = t0 s"
  "files (snd (command w s)) = files s"
  by (simp_all add: command_cases key_names_differ split: option.splits)

lemma command_keepsD:
  assumes "command w s = (c, s1)"
  shows "data s1 = data s" "sample_count s1 = sample_count s" "pins s1 = pins s"
    "t0 s1 = t0 s" "files s1 = files s"
  using command_keeps [of w s] assms by simp_all

lemma command_Break:
  "fst (command w s) = Break \<longleftrightarrow> keys w (polls s) = Some ''q''"
  by (simp add: command_cases key_names_differ split: option.splits)

lemma acquire_keeps:
  "t0 (acquire w s) = t0 s"
  "paused_time (acquire w s) = paused_time s"
  "paused (acquire w s) = paused s"
  "pause_start (acquire w s) = pause_start s"
  "files (acquire w s) = files s"
  "pins (acquire w s) = snd (read w (pins s))"
  "ticks_calls (acquire w s) = Suc (ticks_calls s)"
  by (simp_all add: acquire_cases split: option.splits)

lemma acquire_count:
  "sample_count (acquire w s) = length (data (acquire w s)) \<longleftrightarrow>
   sample_count s = length (data s)"
  by (simp add: acquire_cases split: option.splits)

lemma acquire_count_le:
  "sample_count (acquire w s) \<le> Suc (sample_count s)"
  by (simp add: acquire_cases split: option.splits)

lemma body_cases:
  "body w s =
     (if fst (command w s) = Continue then
        if \<not> paused (snd (command w s)) then (Continue, acquire w (snd (command w s)))
        else (Continue, time_sleep 0.1 (snd (command w s)))
      else command w s)"
  by (cases "command w s") (simp add: body_def split: ctl.splits)

lemma body_count:
  assumes "body w s = (c, s')"
  shows "sample_count s' = length (data s') \<longleftrightarrow> sample_count s = length (data s)"
proof (cases "command w s")
  case (Pair c1 s1)
  with assms command_keepsD [OF Pair] show ?thesis
    by (auto simp: body_cases time_sleep_def acquire_count split: if_splits)
qed

lemma body_count_le:
  assumes "body w s = (c, s')"
  shows "sample_count s' \<le> Suc (sample_count s)"
proof (cases "command w s")
  case (Pair c1 s1)
  with assms command_keepsD [OF Pair] acquire_count_le [of w s1] show ?thesis
    by (auto simp: body_cases time_sleep_def split: if_splits)
qed

lemma body_cs_level:
  assumes "body w s = (c, s')" and "cs_level (pins s)"
  shows "cs_level (pins s')"
proof (cases "command w s")
  case (Pair c1 s1)
  with assms command_keepsD [OF Pair] show ?thesis
    by (auto simp: body_cases time_sleep_def acquire_keeps cs_level_read split: if_splits)
qed

lemma start_facts:
  "sample_count (snd (start w b)) = 0"
  "data (snd (start w b)) = []"
  "\<not> paused (snd (start w b))"
  "cs_level (pins (snd (start w b)))"
  "files (snd (start w b)) = []"
  by (simp_all add: start_def Let_def ticks_ms_def py_print_def init_sensor_def cs_value_def)

lemma top_count: "top_of_loop w b s \<Longrightarrow> sample_count s = length (data s)"
  by (induction rule: top_of_loop.induct) (simp_all add: start_facts body_count)

lemma top_quota: "top_of_loop w b s \<Longrightarrow> sample_count s \<le> TOTAL_SAMPLES"
proof (induction rule: top_of_loop.induct)
  case first
  show ?case by (simp add: start_facts)
next
  case (next_iteration s s')
  from body_count_le [OF next_iteration.hyps(3)] next_iteration.hyps(2)
  show ?case by simp
qed

lemma top_cs_level: "top_of_loop w b s \<Longrightarrow> cs_level (pins s)"
  by (induction rule: top_of_loop.induct) (simp_all add: start_facts body_cs_level)

text \<open>The state in which the loop is left is a top-of-loop state or comes from one by a break.\<close>

lemma loop_result:
  assumes "loop w fuel s = Some (e, s')" and "top_of_loop w b s"
  shows "(e = Quota \<and> top_of_loop w b s' \<and> \<not> sample_count s' < TOTAL_SAMPLES) \<or>
         (e \<noteq> Quota \<and> (\<exists>s1. top_of_loop w b s1 \<and> sample_count s1 < TOTAL_SAMPLES \<and>
              command w s1 = ((if e = Quit then Break else Raise_TypeError), s')))"
  using assms
proof (induction fuel arbitrary: s)
  case 0
  then show ?case by (simp split: if_splits)
next
  case (Suc n)
  show ?case
  proof (cases "sample_count s < TOTAL_SAMPLES")
    case False
    with Suc.prems show ?thesis by simp
  next
    case True
    obtain c s2 where b: "body w s = (c, s2)" by (cases "body w s")
    show ?thesis
    proof (cases c)
      case Continue
      with b True Suc.prems have "loop w n s2 = Some (e, s')" by simp
      moreover have "top_of_loop w b s2"
        using Suc.prems(2) True b Continue by (auto intro: top_of_loop.next_iteration)
      ultimately show ?thesis by (rule Suc.IH)
    next
      case Break
      with b True Suc.prems have e: "e = Quit" "s' = s2" by simp_all
      from b Break have "command w s = (Break, s2)"
        by (auto simp: body_cases split: if_splits)
      with e True Suc.prems(2) show ?thesis by auto
    next
      case Raise_TypeError
      with b True Suc.prems have e: "e = TypeError" "s' = s2" by simp_all
      from b Raise_TypeError have "command w s = (Raise_TypeError, s2)"
        by (auto simp: body_cases split: if_splits)
      with e True Suc.prems(2) show ?thesis by auto
    qed
  qed
qed

section \<open>The claims about chip-select and the sample counter\<close>


lemma last_trace_read: "last (trace (snd (read w b))) = Cs True"
  by (simp add: snd_read cs_value_def)

text \<open>
  Claim C4. A call of \<^verbatim>\<open>read\<close> leaves chip-select high, whatever it returns (the
  fault signal or a temperature): raising it is the last thing the driver does on the bus.
  The constructor raises it before the first call. So chip-select is high whenever the
  guard of the loop is tested, when \<^verbatim>\<open>read\<close> is called and when it has returned.
\<close>

theorem C4_chip_select:
  "cs_level (snd (read w b)) \<and> last (trace (snd (read w b))) = Cs True \<and>
   (fst (read w b) = None \<longrightarrow> cs_level (snd (read w b))) \<and>
   (fst (read w b) \<noteq> None \<longrightarrow> cs_level (snd (read w b))) \<and>
   (top_of_loop w b0 s \<longrightarrow> cs_level (pins s) \<and> cs_level (pins (snd (command w s))) \<and>
      cs_level (pins (acquire w (snd (command w s)))))"
  by (simp add: cs_level_read last_trace_read top_cs_level command_keeps acquire_keeps)

theorem C4_chip_select_witness:
  "fst (read open_world idle_bus) = None \<and> cs_level (snd (read open_world idle_bus)) \<and>
   cs_level (pins (snd (start open_world (idle_bus\<lparr>cs_level := False\<rparr>)))) \<and>
   cs_level (pins (acquire open_world (snd (command open_world (snd (start open_world (idle_bus\<lparr>cs_level := False\<rparr>)))))))"
proof -
  have f: "fst (read open_world idle_bus) = None"
    by (simp add: read_assembled and_4_iff bit_assembled open_world_def)
  have t: "top_of_loop open_world (idle_bus\<lparr>cs_level := False\<rparr>)
             (snd (start open_world (idle_bus\<lparr>cs_level := False\<rparr>)))"
    by (rule top_of_loop.first)
  from C4_chip_select [of open_world idle_bus "idle_bus\<lparr>cs_level := False\<rparr>"
      "snd (start open_world (idle_bus\<lparr>cs_level := False\<rparr>))"] f t
  show ?thesis by simp
qed


lemma acquire_step:
  "(sample_count (acquire w s) = sample_count s \<and> data (acquire w s) = data s) \<or>
   (sample_count (acquire w s) = Suc (sample_count s) \<and>
    (\<exists>x. data (acquire w s) = data s @ [x]))"
proof (cases "fst (read w (pins s))")
  case None
  then show ?thesis by (simp add: acquire_cases)
next
  case (Some t)
  then have "sample_count (acquire w s) = Suc (sample_count s)"
    and "data (acquire w s) =
           data s @ [(real_of_int (clk w (ticks_calls s) - t0 s - paused_time s) / 1000, t)]"
    by (simp_all add: acquire_cases)
  then show ?thesis by blast
qed

lemma body_step:
  assumes "body w s = (c, s')"
  shows "(sample_count s' = sample_count s \<and> data s' = data s) \<or>
         (sample_count s' = Suc (sample_count s) \<and> (\<exists>x. data s' = data s @ [x]))"
proof (cases "command w s")
  case (Pair c1 s1)
  note k = command_keepsD [OF Pair]
  show ?thesis
  proof (cases "c1 = Continue \<and> \<not> paused s1")
    case True
    with assms Pair have "s' = acquire w s1" by (simp add: body_cases)
    with acquire_step [of w s1] k show ?thesis by simp
  next
    case False
    with assms Pair have "s' = s1 \<or> s' = time_sleep 0.1 s1"
      by (auto simp: body_cases split: if_splits)
    with k show ?thesis by (auto simp: time_sleep_def)
  qed
qed

text \<open>
  Claim C10. Whenever the guard of the loop is tested, \<^verbatim>\<open>sample_count\<close> is the length of
  \<^verbatim>\<open>data\<close>: an iteration either appends one sample and adds one to the counter, or does
  neither. So the guard bounds the number of stored samples.
\<close>

theorem C10_count_is_length:
  "(top_of_loop w b s \<longrightarrow> sample_count s = length (data s)) \<and>
   (top_of_loop w b s \<and> sample_count s < TOTAL_SAMPLES \<longrightarrow> length (data s) < 180) \<and>
   (body w s = (c, s') \<longrightarrow>
      (sample_count s' = sample_count s \<and> data s' = data s) \<or>
      (sample_count s' = Suc (sample_count s) \<and> (\<exists>x. data s' = data s @ [x])))"
  using top_count [of w b s] body_step [of w s c s'] by (auto simp: TOTAL_SAMPLES_def)

theorem C10_count_is_length_witness:
  "sample_count (snd (body quit_world (snd (start quit_world idle_bus)))) = 1 \<and>
   length (data (snd (body quit_world (snd (start quit_world idle_bus))))) = 1"
proof -
  let ?s0 = "snd (start quit_world idle_bus)"
  have r: "fst (read quit_world (pins ?s0)) = Some 25"
    using read_of_word [of quit_world "pins ?s0" 800]
    by (simp add: start_def Let_def ticks_ms_def py_print_def init_sensor_def cs_value_def
        quit_world_def idle_bus_def)
  have k: "keys quit_world (polls ?s0) = None"
    by (simp add: start_def Let_def ticks_ms_def py_print_def quit_world_def)
  have b: "body quit_world ?s0 = (Continue, snd (body quit_world ?s0))"
    using k by (simp add: body_cases command_cases start_facts)
  have c: "sample_count (snd (body quit_world ?s0)) = 1"
    using k r by (simp add: body_cases command_cases start_facts acquire_cases)
  have t: "top_of_loop quit_world idle_bus (snd (body quit_world ?s0))"
    by (rule top_of_loop.next_iteration [OF top_of_loop.first _ b])
      (simp add: start_facts TOTAL_SAMPLES_def)
  from C10_count_is_length [of quit_world idle_bus "snd (body quit_world ?s0)"] t c
  show ?thesis by simp
qed

section \<open>The quota\<close>

lemma loop_at_quota: "\<not> sample_count s < TOTAL_SAMPLES \<Longrightarrow> loop w fuel s = Some (Quota, s)"
  by (cases fuel) simp_all

lemma loop_final:
  assumes "top_of_loop w b s" and "loop w fuel s = Some (e, s')"
  shows "length (data s') = sample_count s' \<and> sample_count s' \<le> TOTAL_SAMPLES \<and>
         (e = Quota \<longrightarrow> sample_count s' = TOTAL_SAMPLES) \<and>
         (e \<noteq> Quota \<longrightarrow> sample_count s' < TOTAL_SAMPLES)"
  using loop_result [OF assms(2,1)]
proof (elim disjE conjE exE)
  assume "e = Quota" and t: "top_of_loop w b s'" and "\<not> sample_count s' < TOTAL_SAMPLES"
  with top_quota [OF t] top_count [OF t] show ?thesis by simp
next
  fix s1
  assume "e \<noteq> Quota" and t: "top_of_loop w b s1" and "sample_count s1 < TOTAL_SAMPLES"
    and c: "command w s1 = (if e = Quit then Break else Raise_TypeError, s')"
  with top_count [OF t] command_keepsD [OF c] show ?thesis by simp
qed

lemma acquire_fault:
  assumes "fst (read w (pins s)) = None"
  shows "sample_count (acquire w s) = sample_count s" and "data (acquire w s) = data s"
    and "console (acquire w s) = console s @ [Text ''ERROR: Thermocouple disconnected'']"
  using assms by (simp_all add: acquire_cases)

lemma steady_read:
  assumes "so_reads b mod 16 = 0"
  shows "fst (read steady_world b) = Some 25"
proof -
  have "\<forall>i<16. so_line steady_world (so_reads b + i) = bit (800 :: 16 word) (15 - i)"
  proof (intro allI impI)
    fix i :: nat
    assume "i < 16"
    with assms have "(so_reads b + i) mod 16 = i" by (simp add: mod_add_left_eq [symmetric])
    then show "so_line steady_world (so_reads b + i) = bit (800 :: 16 word) (15 - i)"
      by (simp add: steady_world_def)
  qed
  from read_of_word [OF this] show ?thesis by simp
qed

lemma steady_body:
  assumes "\<not> paused s" and "so_reads (pins s) mod 16 = 0"
  shows "\<exists>s'. body steady_world s = (Continue, s') \<and> \<not> paused s' \<and>
           so_reads (pins s') mod 16 = 0 \<and> sample_count s' = Suc (sample_count s)"
proof -
  have k: "keys steady_world (polls s) = None" by (simp add: steady_world_def)
  let ?s1 = "s\<lparr>polls := Suc (polls s)\<rparr>"
  have c: "command steady_world s = (Continue, ?s1)" using k by (simp add: command_cases)
  have r: "fst (read steady_world (pins ?s1)) = Some 25" using assms(2) by (simp add: steady_read)
  have "body steady_world s = (Continue, acquire steady_world ?s1)"
    using c assms(1) by (simp add: body_cases)
  moreover have "\<not> paused (acquire steady_world ?s1)" using assms(1) by (simp add: acquire_keeps)
  moreover have "so_reads (pins (acquire steady_world ?s1)) mod 16 = 0"
    using assms(2) by (simp add: acquire_keeps so_reads_read)
  moreover have "sample_count (acquire steady_world ?s1) = Suc (sample_count s)"
    using r by (simp add: acquire_cases)
  ultimately show ?thesis by (intro exI [of _ "acquire steady_world ?s1"] conjI)
qed

text \<open>With a converter that answers every read, the loop ends by itself after 180 iterations.\<close>

lemma steady_loop:
  assumes "\<not> paused s" and "so_reads (pins s) mod 16 = 0" and "sample_count s + n = TOTAL_SAMPLES"
  shows "\<exists>s'. loop steady_world n s = Some (Quota, s')"
  using assms
proof (induction n arbitrary: s)
  case 0
  then show ?case by simp
next
  case (Suc n)
  from steady_body [OF Suc.prems(1,2)] obtain s1 where
    b: "body steady_world s = (Continue, s1)" and p: "\<not> paused s1"
    and r: "so_reads (pins s1) mod 16 = 0" and c: "sample_count s1 = Suc (sample_count s)"
    by (elim exE conjE)
  from c Suc.prems(3) have "sample_count s1 + n = TOTAL_SAMPLES" by simp
  from Suc.IH [OF p r this] obtain s' where "loop steady_world n s1 = Some (Quota, s')" ..
  moreover from Suc.prems(3) have "sample_count s < TOTAL_SAMPLES" by simp
  ultimately show ?case using b by simp
qed

lemma steady_run:
  "\<exists>s'. loop steady_world 180 (snd (start steady_world idle_bus)) = Some (Quota, s')"
proof (rule steady_loop)
  show "\<not> paused (snd (start steady_world idle_bus))" by (simp add: start_facts)
  show "so_reads (pins (snd (start steady_world idle_bus))) mod 16 = 0"
    by (simp add: start_def Let_def ticks_ms_def py_print_def init_sensor_def cs_value_def
        idle_bus_def)
  show "sample_count (snd (start steady_world idle_bus)) + 180 = TOTAL_SAMPLES"
    by (simp add: start_facts TOTAL_SAMPLES_def)
qed

text \<open>
  Claim C6. Whenever the guard of the loop is tested, at most 180 samples are stored. Once
  the counter is 180 the loop is left with no further iteration. The state in which the loop
  is left holds as many samples as the counter says, at most 180, exactly 180 when the
  loop was left by its guard, and fewer otherwise. A read that returns the fault signal
  changes neither the counter nor the samples.
\<close>

theorem C6_quota:
  "(top_of_loop w b s \<longrightarrow> sample_count s \<le> 180 \<and> length (data s) \<le> 180) \<and>
   (sample_count s = 180 \<longrightarrow> loop w fuel s = Some (Quota, s)) \<and>
   (top_of_loop w b s \<and> loop w fuel s = Some (e, s') \<longrightarrow>
      length (data s') = sample_count s' \<and> sample_count s' \<le> 180 \<and>
      (e = Quota \<longrightarrow> sample_count s' = 180) \<and> (e \<noteq> Quota \<longrightarrow> sample_count s' < 180)) \<and>
   (fst (read w (pins s)) = None \<longrightarrow>
      sample_count (acquire w s) = sample_count s \<and> data (acquire w s) = data s)"
proof (intro conjI impI)
  assume t: "top_of_loop w b s"
  from top_quota [OF t] show "sample_count s \<le> 180" by (simp add: TOTAL_SAMPLES_def)
  with top_count [OF t] show "length (data s) \<le> 180" by simp
next
  assume "sample_count s = 180"
  then show "loop w fuel s = Some (Quota, s)" by (simp add: loop_at_quota TOTAL_SAMPLES_def)
next
  assume a: "top_of_loop w b s \<and> loop w fuel s = Some (e, s')"
  then have f: "length (data s') = sample_count s' \<and> sample_count s' \<le> TOTAL_SAMPLES \<and>
         (e = Quota \<longrightarrow> sample_count s' = TOTAL_SAMPLES) \<and>
         (e \<noteq> Quota \<longrightarrow> sample_count s' < TOTAL_SAMPLES)"
    using loop_final [of w b s fuel e s'] by simp
  from f show "length (data s') = sample_count s'" by simp
  from f show "sample_count s' \<le> 180" by (simp add: TOTAL_SAMPLES_def)
  from f show "e = Quota \<Longrightarrow> sample_count s' = 180" by (simp add: TOTAL_SAMPLES_def)
  from f show "e \<noteq> Quota \<Longrightarrow> sample_count s' < 180" by (simp add: TOTAL_SAMPLES_def)
next
  assume "fst (read w (pins s)) = None"
  then show "sample_count (acquire w s) = sample_count s" and "data (acquire w s) = data s"
    by (simp_all add: acquire_fault)
qed

theorem C6_quota_witness:
  "\<exists>s'. loop steady_world 180 (snd (start steady_world idle_bus)) = Some (Quota, s') \<and>
        sample_count s' = 180 \<and> length (data s') = 180 \<and> loop steady_world 0 s' = Some (Quota, s')"
proof -
  from steady_run obtain s' where
    l: "loop steady_world 180 (snd (start steady_world idle_bus)) = Some (Quota, s')" ..
  have t: "top_of_loop steady_world idle_bus (snd (start steady_world idle_bus))"
    by (rule top_of_loop.first)
  from C6_quota [of steady_world idle_bus "snd (start steady_world idle_bus)" 180 Quota s'] l t
  have c: "sample_count s' = 180" and d: "length (data s') = 180" by simp_all
  from C6_quota [of steady_world idle_bus s' 0 Quota s'] c
  have "loop steady_world 0 s' = Some (Quota, s')" by blast
  with l c d show ?thesis by blast
qed

section \<open>Faults and the quit command\<close>

text \<open>
  Claim C5. In an iteration that is not paused after the keyboard has been handled, if
  \<^verbatim>\<open>read\<close> returns the fault signal then the iteration prints the warning line, leaves
  the samples and the counter as they were, and ends normally: the loop goes on with the
  next test of its guard.
\<close>

theorem C5_fault_skipped:
  assumes "sample_count s < TOTAL_SAMPLES"
    and "command w s = (Continue, s1)"
    and "\<not> paused s1"
    and "fst (read w (pins s1)) = None"
  shows "body w s = (Continue, acquire w s1) \<and>
         console (acquire w s1) = console s1 @ [Text ''ERROR: Thermocouple disconnected''] \<and>
         data (acquire w s1) = data s \<and>
         sample_count (acquire w s1) = sample_count s \<and>
         loop w (Suc n) s = loop w n (acquire w s1)"
proof -
  have b: "body w s = (Continue, acquire w s1)"
    using assms(2,3) by (simp add: body_cases)
  with assms(1) have "loop w (Suc n) s = loop w n (acquire w s1)" by simp
  with b acquire_fault [OF assms(4)] command_keepsD [OF assms(2)] show ?thesis by simp
qed

lemma open_read: "fst (read open_world b) = None"
  by (simp add: read_assembled and_4_iff bit_assembled open_world_def)

theorem C5_fault_skipped_witness:
  "data (snd (body open_world (snd (start open_world idle_bus)))) = [] \<and>
   sample_count (snd (body open_world (snd (start open_world idle_bus)))) = 0 \<and>
   last (console (snd (body open_world (snd (start open_world idle_bus))))) =
     Text ''ERROR: Thermocouple disconnected'' \<and>
   loop open_world 1 (snd (start open_world idle_bus)) = None"
proof -
  let ?s = "snd (start open_world idle_bus)"
  let ?s1 = "?s\<lparr>polls := Suc (polls ?s)\<rparr>"
  have 1: "sample_count ?s < TOTAL_SAMPLES" by (simp add: start_facts TOTAL_SAMPLES_def)
  have 2: "command open_world ?s = (Continue, ?s1)"
    by (simp add: command_cases open_world_def)
  have 3: "\<not> paused ?s1" by (simp add: start_facts)
  have 4: "fst (read open_world (pins ?s1)) = None" by (rule open_read)
  from C5_fault_skipped [OF 1 2 3 4, of 0] show ?thesis
    by (simp add: start_facts TOTAL_SAMPLES_def)
qed

text \<open>
  Claim C9. If the keyboard delivers \<^verbatim>\<open>q\<close> in an iteration, paused or not, the loop is
  left in that iteration, with fewer than 180 samples; leaving changes neither the samples
  nor the counter, and takes no reading. The code after the loop then writes exactly these
  samples to the file, unless there are none, in which case it writes no file.
\<close>

theorem C9_quit:
  assumes "sample_count s < TOTAL_SAMPLES"
    and "keys w (polls s) = Some ''q''"
  shows "\<exists>s'. loop w (Suc n) s = Some (Quit, s') \<and>
           data s' = data s \<and> sample_count s' = sample_count s \<and> sample_count s' < 180 \<and>
           pins s' = pins s \<and> files s' = files s \<and>
           data (finish name (py_print (Text ''STOP'') s')) = data s \<and>
           files (finish name (py_print (Text ''STOP'') s')) =
             (if data s = [] then files s
              else files s @ [(name, ''time_seconds,temperature_C'', data s)])"
proof -
  let ?s' = "s\<lparr>polls := Suc (polls s), console := console s @ [Text ''STOP'']\<rparr>"
  have c: "command w s = (Break, ?s')"
    using assms(2) by (simp add: command_cases key_names_differ)
  then have "body w s = (Break, ?s')" by (simp add: body_cases)
  with assms(1) have "loop w (Suc n) s = Some (Quit, ?s')" by simp
  moreover have "sample_count ?s' < 180" using assms(1) by (simp add: TOTAL_SAMPLES_def)
  moreover have "data (finish name (py_print (Text ''STOP'') ?s')) = data s"
    by (simp add: finish_def write_csv_def py_print_def)
  moreover have "files (finish name (py_print (Text ''STOP'') ?s')) =
             (if data s = [] then files s
              else files s @ [(name, ''time_seconds,temperature_C'', data s)])"
    by (simp add: finish_def write_csv_def py_print_def)
  ultimately show ?thesis by (intro exI [of _ ?s']) simp
qed


lemma quit_world_first:
  "data (snd (body quit_world (snd (start quit_world idle_bus)))) = [(1, 25)]"
  "sample_count (snd (body quit_world (snd (start quit_world idle_bus)))) = 1"
  "polls (snd (body quit_world (snd (start quit_world idle_bus)))) = 1"
  "files (snd (body quit_world (snd (start quit_world idle_bus)))) = []"
proof -
  let ?s0 = "snd (start quit_world idle_bus)"
  have r: "fst (read quit_world (pins ?s0)) = Some 25"
    using read_of_word [of quit_world "pins ?s0" 800]
    by (simp add: start_def Let_def ticks_ms_def py_print_def init_sensor_def cs_value_def
        quit_world_def idle_bus_def)
  have k: "keys quit_world (polls ?s0) = None" "polls ?s0 = 0" "ticks_calls ?s0 = 2"
    "t0 ?s0 = 1000" "paused_time ?s0 = 0"
    by (simp_all add: start_def Let_def ticks_ms_def py_print_def quit_world_def)
  have b: "snd (body quit_world ?s0) = acquire quit_world (?s0\<lparr>polls := Suc 0\<rparr>)"
    using k by (simp add: body_cases command_cases start_facts)
  have c: "clk quit_world 2 = 2000" by (simp add: quit_world_def)
  show "data (snd (body quit_world ?s0)) = [(1, 25)]"
    and "sample_count (snd (body quit_world ?s0)) = 1"
    and "polls (snd (body quit_world ?s0)) = 1"
    and "files (snd (body quit_world ?s0)) = []"
    unfolding b using r k c by (simp_all add: acquire_cases start_facts)
qed

theorem C9_quit_witness:
  "\<exists>s'. loop quit_world 1 (snd (body quit_world (snd (start quit_world idle_bus)))) =
          Some (Quit, s') \<and>
        data s' = [(1, 25)] \<and>
        files (finish 0 (py_print (Text ''STOP'') s')) =
          [(0, ''time_seconds,temperature_C'', [(1, 25)])]"
proof -
  let ?s = "snd (body quit_world (snd (start quit_world idle_bus)))"
  have 1: "sample_count ?s < TOTAL_SAMPLES" by (simp add: quit_world_first TOTAL_SAMPLES_def)
  have 2: "keys quit_world (polls ?s) = Some ''q''"
    by (simp add: quit_world_first) (simp add: quit_world_def)
  from C9_quit [OF 1 2, of 0 0] obtain s' where
    "loop quit_world (Suc 0) ?s = Some (Quit, s')" and "data s' = data ?s"
    and "files (finish 0 (py_print (Text ''STOP'') s')) =
           (if data ?s = [] then files ?s
            else files ?s @ [(0, ''time_seconds,temperature_C'', data ?s)])"
    by (elim exE conjE)
  then show ?thesis by (intro exI [of _ s']) (simp add: quit_world_first)
qed

section \<open>Elapsed time\<close>

lemma ms_mono: "a \<le> b \<Longrightarrow> real_of_int a / 1000 \<le> real_of_int b / 1000"
  by (simp add: divide_right_mono)

lemma timing_inv_sleep: "timing_inv w (time_sleep d s) = timing_inv w s"
  by (simp add: timing_inv_def time_sleep_def)

lemma timing_inv_start: "timing_inv w (snd (start w b))"
  by (simp add: timing_inv_def start_facts)

lemma timing_inv_cong:
  assumes "data s' = data s" "paused s' = paused s" "pause_start s' = pause_start s"
    "ticks_calls s' = ticks_calls s" "t0 s' = t0 s" "paused_time s' = paused_time s"
  shows "timing_inv w s' = timing_inv w s"
  using assms by (simp add: timing_inv_def)

lemma command_inv:
  assumes mono: "\<forall>i j. i \<le> j \<longrightarrow> clk w i \<le> clk w j"
    and inv: "timing_inv w s"
    and c: "command w s = (c, s1)"
  shows "timing_inv w s1 \<and> c \<noteq> Raise_TypeError"
proof -
  let ?n = "ticks_calls s"
  consider (pause) "keys w (polls s) = Some ''p''" "\<not> paused s"
    | (resume) "keys w (polls s) = Some ''r''" "paused s"
    | (other) "\<not> (keys w (polls s) = Some ''p'' \<and> \<not> paused s)"
        "\<not> (keys w (polls s) = Some ''r'' \<and> paused s)"
    by blast
  then show ?thesis
  proof cases
    case pause
    with c have s1: "s1 = s\<lparr>polls := Suc (polls s), paused := True, ticks_calls := Suc ?n,
                     pause_start := Some (clk w ?n),
                     console := console s @ [Text ''PAUSED'']\<rparr>" and "c = Continue"
      by (simp_all add: command_cases)
    from inv pause(2) have srt: "sorted (map fst (data s))"
      and bnd: "\<forall>e\<in>set (data s). fst e \<le> real_of_int (clk w ?n - t0 s - paused_time s) / 1000"
      by (simp_all add: timing_inv_def)
    have "\<forall>i\<ge>Suc ?n. clk w ?n \<le> clk w i" using mono by simp
    with srt bnd \<open>c = Continue\<close> show ?thesis by (simp add: timing_inv_def s1)
  next
    case resume
    with inv obtain ps where ps: "pause_start s = Some ps"
      and srt: "sorted (map fst (data s))"
      and bnd: "\<forall>e\<in>set (data s). fst e \<le> real_of_int (ps - t0 s - paused_time s) / 1000"
      by (auto simp: timing_inv_def)
    from c resume ps have s1: "s1 = s\<lparr>polls := Suc (polls s), paused := False,
                          ticks_calls := Suc ?n,
                          paused_time := paused_time s + (clk w ?n - ps),
                          console := console s @ [Text ''RESUMED'']\<rparr>" and "c = Continue"
      by (simp_all add: command_cases key_names_differ)
    have "fst e \<le> real_of_int (clk w i - t0 s - (paused_time s + (clk w ?n - ps))) / 1000"
      if "e \<in> set (data s)" and "Suc ?n \<le> i" for e i
    proof -
      from that(2) mono have "clk w ?n \<le> clk w i" by simp
      then have "ps - t0 s - paused_time s \<le> clk w i - t0 s - (paused_time s + (clk w ?n - ps))"
        by simp
      from ms_mono [OF this] bnd that(1) show ?thesis by force
    qed
    with srt \<open>c = Continue\<close> show ?thesis by (simp add: timing_inv_def s1)
  next
    case other
    with c have "(c = Break \<and> s1 = s\<lparr>polls := Suc (polls s), console := console s @ [Text ''STOP'']\<rparr>)
        \<or> (c = Continue \<and> s1 = s\<lparr>polls := Suc (polls s)\<rparr>)"
      by (auto simp: command_cases split: if_splits)
    moreover have "timing_inv w (s\<lparr>polls := Suc (polls s), console := console s @ [Text ''STOP'']\<rparr>)
        = timing_inv w s" by (rule timing_inv_cong) simp_all
    moreover have "timing_inv w (s\<lparr>polls := Suc (polls s)\<rparr>) = timing_inv w s"
      by (rule timing_inv_cong) simp_all
    ultimately show ?thesis using inv by auto
  qed
qed

lemma acquire_inv:
  assumes mono: "\<forall>i j. i \<le> j \<longrightarrow> clk w i \<le> clk w j"
    and inv: "timing_inv w s"
    and np: "\<not> paused s"
  shows "timing_inv w (acquire w s)"
proof -
  let ?n = "ticks_calls s"
  let ?E = "\<lambda>i. real_of_int (clk w i - t0 s - paused_time s) / 1000"
  from inv np have srt: "sorted (map fst (data s))"
    and bnd: "\<forall>i\<ge>?n. \<forall>e\<in>set (data s). fst e \<le> ?E i"
    by (simp_all add: timing_inv_def)
  have later: "?E ?n \<le> ?E i" if "Suc ?n \<le> i" for i
  proof -
    from that mono have "clk w ?n \<le> clk w i" by simp
    then have "clk w ?n - t0 s - paused_time s \<le> clk w i - t0 s - paused_time s" by simp
    then show ?thesis by (rule ms_mono)
  qed
  show ?thesis
  proof (cases "fst (read w (pins s))")
    case None
    with np srt bnd show ?thesis by (simp add: timing_inv_def acquire_cases)
  next
    case (Some t)
    have "sorted (map fst (data s) @ [?E ?n])"
      using srt bnd by (simp add: sorted_append)
    with Some np bnd later show ?thesis
      by (simp add: timing_inv_def acquire_cases)
  qed
qed

lemma body_inv:
  assumes mono: "\<forall>i j. i \<le> j \<longrightarrow> clk w i \<le> clk w j"
    and inv: "timing_inv w s"
    and b: "body w s = (c, s')"
  shows "timing_inv w s' \<and> c \<noteq> Raise_TypeError"
proof (cases "command w s")
  case (Pair c1 s1)
  from command_inv [OF mono inv Pair] have i1: "timing_inv w s1" and c1: "c1 \<noteq> Raise_TypeError"
    by simp_all
  show ?thesis
  proof (cases "c1 = Continue")
    case True
    with b Pair have "c = Continue"
      and "s' = (if \<not> paused s1 then acquire w s1 else time_sleep 0.1 s1)"
      by (auto simp: body_cases split: if_splits)
    with i1 acquire_inv [OF mono i1] show ?thesis by (simp add: timing_inv_sleep)
  next
    case False
    with b Pair have "c = c1" "s' = s1" by (auto simp: body_cases split: if_splits)
    with i1 c1 show ?thesis by simp
  qed
qed

lemma top_inv:
  assumes "\<forall>i j. i \<le> j \<longrightarrow> clk w i \<le> clk w j" and "top_of_loop w b s"
  shows "timing_inv w s"
  using assms(2)
proof (induction rule: top_of_loop.induct)
  case first
  show ?case by (rule timing_inv_start)
next
  case (next_iteration s s')
  from body_inv [OF assms(1) next_iteration.IH next_iteration.hyps(3)] show ?case by simp
qed

lemma pattern_read:
  assumes "so_line w = (\<lambda>k. bit (800 :: 16 word) (15 - k mod 16))" and "so_reads b mod 16 = 0"
  shows "fst (read w b) = Some 25"
proof -
  have "\<forall>i<16. so_line w (so_reads b + i) = bit (800 :: 16 word) (15 - i)"
  proof (intro allI impI)
    fix i :: nat
    assume "i < 16"
    with assms(2) have "(so_reads b + i) mod 16 = i" by (simp add: mod_add_left_eq [symmetric])
    then show "so_line w (so_reads b + i) = bit (800 :: 16 word) (15 - i)"
      by (simp add: assms(1))
  qed
  from read_of_word [OF this] show ?thesis by simp
qed

lemma pause_run_0: "pause_run 0 = snd (start pause_world idle_bus)"
  by (simp add: pause_run_def)

lemma pause_run_Suc: "pause_run (Suc k) = snd (body pause_world (pause_run k))"
  by (simp add: pause_run_def)

lemma pause_world_simps:
  "clk pause_world k = 1000 * int k"
  "keys pause_world k = (if k = 1 then Some ''p'' else if k = 3 then Some ''r'' else None)"
  "so_line pause_world = (\<lambda>k. bit (800 :: 16 word) (15 - k mod 16))"
  by (simp_all add: pause_world_def)

lemma pause_run_0_fields:
  "data (pause_run 0) = []" "sample_count (pause_run 0) = 0" "polls (pause_run 0) = 0"
  "ticks_calls (pause_run 0) = 2" "t0 (pause_run 0) = 1000" "paused_time (pause_run 0) = 0"
  "\<not> paused (pause_run 0)" "so_reads (pins (pause_run 0)) = 0"
  by (simp_all add: pause_run_0 start_def Let_def ticks_ms_def py_print_def init_sensor_def
      cs_value_def idle_bus_def pause_world_simps)

lemma pause_run_1_fields:
  "data (pause_run (Suc 0)) = [(1, 25)]" "sample_count (pause_run (Suc 0)) = 1" "polls (pause_run (Suc 0)) = 1"
  "ticks_calls (pause_run (Suc 0)) = 3" "t0 (pause_run (Suc 0)) = 1000" "paused_time (pause_run (Suc 0)) = 0"
  "\<not> paused (pause_run (Suc 0))" "so_reads (pins (pause_run (Suc 0))) = 16"
  "body pause_world (pause_run 0) = (Continue, pause_run (Suc 0))"
proof -
  have r: "fst (read pause_world (pins (pause_run 0))) = Some 25"
    by (rule pattern_read) (simp_all add: pause_world_simps pause_run_0_fields)
  have b: "body pause_world (pause_run 0) =
      (Continue, acquire pause_world ((pause_run 0)\<lparr>polls := Suc 0\<rparr>))"
    by (simp add: body_cases command_cases pause_world_simps pause_run_0_fields)
  then have p: "pause_run (Suc 0) = acquire pause_world ((pause_run 0)\<lparr>polls := Suc 0\<rparr>)"
    using pause_run_Suc [of 0] by simp
  show "data (pause_run (Suc 0)) = [(1, 25)]" "sample_count (pause_run (Suc 0)) = 1" "polls (pause_run (Suc 0)) = 1"
    "ticks_calls (pause_run (Suc 0)) = 3" "t0 (pause_run (Suc 0)) = 1000" "paused_time (pause_run (Suc 0)) = 0"
    "\<not> paused (pause_run (Suc 0))" "so_reads (pins (pause_run (Suc 0))) = 16"
    unfolding p using r
    by (simp_all add: acquire_cases pause_run_0_fields pause_world_simps so_reads_read)
  show "body pause_world (pause_run 0) = (Continue, pause_run (Suc 0))" using b p by simp
qed


lemma pause_run_2_fields:
  "data (pause_run 2) = [(1, 25)]" "sample_count (pause_run 2) = 1" "polls (pause_run 2) = 2"
  "ticks_calls (pause_run 2) = 4" "t0 (pause_run 2) = 1000" "paused_time (pause_run 2) = 0"
  "paused (pause_run 2)" "pause_start (pause_run 2) = Some 3000"
  "so_reads (pins (pause_run 2)) = 16"
  "body pause_world (pause_run (Suc 0)) = (Continue, pause_run 2)"
proof -
  have b: "body pause_world (pause_run (Suc 0)) =
      (Continue, time_sleep 0.1 ((pause_run (Suc 0))\<lparr>polls := 2, paused := True, ticks_calls := 4,
         pause_start := Some 3000, console := console (pause_run (Suc 0)) @ [Text ''PAUSED'']\<rparr>))"
    by (simp add: body_cases command_cases pause_world_simps pause_run_1_fields
        numeral_2_eq_2 [symmetric])
  then have p: "pause_run 2 = time_sleep 0.1 ((pause_run (Suc 0))\<lparr>polls := 2, paused := True,
         ticks_calls := 4, pause_start := Some 3000,
         console := console (pause_run (Suc 0)) @ [Text ''PAUSED'']\<rparr>)"
    using pause_run_Suc [of "Suc 0"] by (simp add: numeral_2_eq_2)
  show "data (pause_run 2) = [(1, 25)]" "sample_count (pause_run 2) = 1" "polls (pause_run 2) = 2"
    "ticks_calls (pause_run 2) = 4" "t0 (pause_run 2) = 1000" "paused_time (pause_run 2) = 0"
    "paused (pause_run 2)" "pause_start (pause_run 2) = Some 3000"
    "so_reads (pins (pause_run 2)) = 16"
    unfolding p by (simp_all add: time_sleep_def pause_run_1_fields)
  show "body pause_world (pause_run (Suc 0)) = (Continue, pause_run 2)" using b p by simp
qed

lemma pause_run_3_fields:
  "data (pause_run 3) = [(1, 25)]" "sample_count (pause_run 3) = 1" "polls (pause_run 3) = 3"
  "ticks_calls (pause_run 3) = 4" "t0 (pause_run 3) = 1000" "paused_time (pause_run 3) = 0"
  "paused (pause_run 3)" "pause_start (pause_run 3) = Some 3000"
  "so_reads (pins (pause_run 3)) = 16"
  "body pause_world (pause_run 2) = (Continue, pause_run 3)"
proof -
  have b: "body pause_world (pause_run 2) =
      (Continue, time_sleep 0.1 ((pause_run 2)\<lparr>polls := 3\<rparr>))"
    by (simp add: body_cases command_cases pause_world_simps pause_run_2_fields)
  then have p: "pause_run 3 = time_sleep 0.1 ((pause_run 2)\<lparr>polls := 3\<rparr>)"
    using pause_run_Suc [of 2] by simp
  show "data (pause_run 3) = [(1, 25)]" "sample_count (pause_run 3) = 1" "polls (pause_run 3) = 3"
    "ticks_calls (pause_run 3) = 4" "t0 (pause_run 3) = 1000" "paused_time (pause_run 3) = 0"
    "paused (pause_run 3)" "pause_start (pause_run 3) = Some 3000"
    "so_reads (pins (pause_run 3)) = 16"
    unfolding p by (simp_all add: time_sleep_def pause_run_2_fields)
  show "body pause_world (pause_run 2) = (Continue, pause_run 3)" using b p by simp
qed

lemma pause_run_4_fields:
  "data (pause_run 4) = [(1, 25), (3, 25)]" "sample_count (pause_run 4) = 2"
  "paused_time (pause_run 4) = 1000" "\<not> paused (pause_run 4)"
  "body pause_world (pause_run 3) = (Continue, pause_run 4)"
  "command pause_world (pause_run 3) =
     (Continue, (pause_run 3)\<lparr>polls := 4, paused := False, ticks_calls := 5,
        paused_time := 1000, console := console (pause_run 3) @ [Text ''RESUMED'']\<rparr>)"
proof -
  let ?s1 = "(pause_run 3)\<lparr>polls := 4, paused := False, ticks_calls := 5,
        paused_time := 1000, console := console (pause_run 3) @ [Text ''RESUMED'']\<rparr>"
  show c: "command pause_world (pause_run 3) = (Continue, ?s1)"
    by (simp add: command_cases pause_world_simps pause_run_3_fields key_names_differ)
  have r: "fst (read pause_world (pins ?s1)) = Some 25"
    by (rule pattern_read) (simp_all add: pause_world_simps pause_run_3_fields)
  have b: "body pause_world (pause_run 3) = (Continue, acquire pause_world ?s1)"
    by (simp add: body_cases c)
  then have p: "pause_run 4 = acquire pause_world ?s1"
    using pause_run_Suc [of 3] by simp
  show "data (pause_run 4) = [(1, 25), (3, 25)]" "sample_count (pause_run 4) = 2"
    "paused_time (pause_run 4) = 1000" "\<not> paused (pause_run 4)"
    unfolding p using r
    by (simp_all add: acquire_cases pause_run_3_fields pause_world_simps)
  show "body pause_world (pause_run 3) = (Continue, pause_run 4)" using b p by simp
qed

lemma pause_run_top: "top_of_loop pause_world idle_bus (pause_run 4)"
proof -
  have 0: "top_of_loop pause_world idle_bus (pause_run 0)"
    unfolding pause_run_0 by (rule top_of_loop.first)
  have 1: "top_of_loop pause_world idle_bus (pause_run (Suc 0))"
    by (rule top_of_loop.next_iteration [OF 0 _ pause_run_1_fields(9)])
      (simp add: pause_run_0_fields TOTAL_SAMPLES_def)
  have 2: "top_of_loop pause_world idle_bus (pause_run 2)"
    by (rule top_of_loop.next_iteration [OF 1 _ pause_run_2_fields(10)])
      (simp add: pause_run_1_fields TOTAL_SAMPLES_def)
  have 3: "top_of_loop pause_world idle_bus (pause_run 3)"
    by (rule top_of_loop.next_iteration [OF 2 _ pause_run_3_fields(10)])
      (simp add: pause_run_2_fields TOTAL_SAMPLES_def)
  show ?thesis
    by (rule top_of_loop.next_iteration [OF 3 _ pause_run_4_fields(5)])
      (simp add: pause_run_3_fields TOTAL_SAMPLES_def)
qed

lemma pause_world_mono: "\<forall>i j. i \<le> j \<longrightarrow> clk pause_world i \<le> clk pause_world j"
  by (simp add: pause_world_simps)

text \<open>
  Claim C7. If the readings of the clock never decrease, then whenever the guard of the loop
  is tested the elapsed times of the stored samples are in non-decreasing order: each
  sample's elapsed time is at most that of the sample stored after it. The same holds of
  the samples in the state in which the loop is left, and the loop does not end in a
  TypeError.
\<close>

theorem C7_elapsed_monotonic:
  assumes "\<forall>i j. i \<le> j \<longrightarrow> clk w i \<le> clk w j" and "top_of_loop w b s"
  shows "(\<forall>i. Suc i < length (data s) \<longrightarrow> fst (data s ! i) \<le> fst (data s ! Suc i)) \<and>
         sorted (map fst (data s)) \<and>
         (\<forall>fuel e s'. loop w fuel s = Some (e, s') \<longrightarrow>
            e \<noteq> TypeError \<and> sorted (map fst (data s')) \<and>
            (\<forall>i. Suc i < length (data s') \<longrightarrow> fst (data s' ! i) \<le> fst (data s' ! Suc i)))"
proof -
  have adj: "\<forall>i. Suc i < length (data u) \<longrightarrow> fst (data u ! i) \<le> fst (data u ! Suc i)"
    if "sorted (map fst (data u))" for u :: state
  proof (intro allI impI)
    fix i
    assume i: "Suc i < length (data u)"
    with that have "map fst (data u) ! i \<le> map fst (data u) ! Suc i"
      by (intro sorted_nth_mono) simp_all
    with i show "fst (data u ! i) \<le> fst (data u ! Suc i)" by simp
  qed
  have srt: "sorted (map fst (data u))" if "top_of_loop w b u" for u
    using top_inv [OF assms(1) that] by (simp add: timing_inv_def)
  have fin: "e \<noteq> TypeError \<and> sorted (map fst (data s'))"
    if l: "loop w fuel s = Some (e, s')" for fuel e s'
    using loop_result [OF l assms(2)]
  proof (elim disjE conjE exE)
    assume "e = Quota" and "top_of_loop w b s'"
    then show ?thesis by (simp add: srt)
  next
    fix s1
    assume t: "top_of_loop w b s1"
      and c: "command w s1 = (if e = Quit then Break else Raise_TypeError, s')"
      and e: "e \<noteq> Quota"
    from command_inv [OF assms(1) top_inv [OF assms(1) t] c] e
    have "e \<noteq> TypeError" by (cases e) simp_all
    with srt [OF t] command_keepsD(1) [OF c] show ?thesis by simp
  qed
  from srt [OF assms(2)] adj fin show ?thesis by blast
qed

theorem C7_elapsed_monotonic_witness:
  "data (pause_run 4) = [(1, 25), (3, 25)] \<and>
   fst (data (pause_run 4) ! 0) \<le> fst (data (pause_run 4) ! Suc 0)"
proof -
  from C7_elapsed_monotonic [OF pause_world_mono pause_run_top]
  have "\<forall>i. Suc i < length (data (pause_run 4)) \<longrightarrow>
          fst (data (pause_run 4) ! i) \<le> fst (data (pause_run 4) ! Suc i)"
    by (rule conjunct1)
  then have "Suc 0 < length (data (pause_run 4)) \<longrightarrow>
          fst (data (pause_run 4) ! 0) \<le> fst (data (pause_run 4) ! Suc 0)" by (rule spec)
  moreover have "Suc 0 < length (data (pause_run 4))" by (simp add: pause_run_4_fields)
  ultimately show ?thesis by (simp add: pause_run_4_fields(1))
qed

section \<open>The program against the specification's account of time\<close>

lemma start_timing:
  "t0 (snd (start w b)) = clk w 1" "paused_time (snd (start w b)) = 0"
  "pause_start (snd (start w b)) = None" "ticks_calls (snd (start w b)) = 2"
  by (simp_all add: start_def Let_def ticks_ms_def py_print_def)

lemma agrees_start:
  "agrees w (snd (start w b)) \<lparr>in_pause = None, paused_total = 0, sampled = []\<rparr>"
  by (simp add: agrees_def start_timing start_facts)

lemma agrees_sample:
  assumes a: "agrees w s g" and np: "\<not> paused s"
  shows "agrees w (acquire w s) (spec_sample w s (ticks_calls s) g)"
proof (cases "fst (read w (pins s))")
  case None
  with a show ?thesis by (simp add: agrees_def acquire_cases spec_sample_def)
next
  case (Some temp)
  with a show ?thesis
    by (simp add: agrees_def acquire_cases spec_sample_def spec_elapsed_def)
qed

lemma agrees_step:
  assumes a: "agrees w s g" and b: "body w s = (Continue, s')"
  shows "agrees w s' (spec_step w s g)"
proof -
  let ?n = "ticks_calls s"
  consider (pause) "keys w (polls s) = Some ''p''" "\<not> paused s"
    | (resume) "keys w (polls s) = Some ''r''" "paused s"
    | (other) "\<not> (keys w (polls s) = Some ''p'' \<and> \<not> paused s)"
        "\<not> (keys w (polls s) = Some ''r'' \<and> paused s)"
    by blast
  then show ?thesis
  proof cases
    case pause
    then have c: "command w s = (Continue, s\<lparr>polls := Suc (polls s), paused := True,
        ticks_calls := Suc ?n, pause_start := Some (clk w ?n),
        console := console s @ [Text ''PAUSED'']\<rparr>)"
      by (simp add: command_cases)
    with b have s': "s' = time_sleep 0.1 (s\<lparr>polls := Suc (polls s), paused := True,
        ticks_calls := Suc ?n, pause_start := Some (clk w ?n),
        console := console s @ [Text ''PAUSED'']\<rparr>)"
      by (simp add: body_cases)
    from a pause(2) have "in_pause g = None" by (simp add: agrees_def)
    with pause(1) have g: "spec_step w s g = g\<lparr>in_pause := Some (clk w ?n)\<rparr>"
      by (simp add: spec_step_def)
    from a show ?thesis unfolding s' g by (simp add: agrees_def time_sleep_def)
  next
    case resume
    with a obtain began where ip: "in_pause g = Some began" and ps: "pause_start s = Some began"
      by (auto simp: agrees_def)
    let ?s1 = "s\<lparr>polls := Suc (polls s), paused := False, ticks_calls := Suc ?n,
        paused_time := paused_time s + (clk w ?n - began),
        console := console s @ [Text ''RESUMED'']\<rparr>"
    let ?g1 = "g\<lparr>in_pause := None, paused_total := paused_total g + (clk w ?n - began)\<rparr>"
    from resume ps have c: "command w s = (Continue, ?s1)"
      by (simp add: command_cases key_names_differ)
    with b have s': "s' = acquire w ?s1" by (simp add: body_cases)
    from resume(1) ip have g: "spec_step w s g = spec_sample w ?s1 (ticks_calls ?s1) ?g1"
      by (simp add: spec_step_def spec_sample_def)
    from a have "agrees w ?s1 ?g1" by (simp add: agrees_def)
    then show ?thesis unfolding s' g by (rule agrees_sample) simp
  next
    case other
    show ?thesis
    proof (cases "keys w (polls s) = Some ''q''")
      case True
      with other have "fst (command w s) = Break" by (simp add: command_Break)
      with b show ?thesis by (simp add: body_cases)
    next
      case False
      with other have c: "command w s = (Continue, s\<lparr>polls := Suc (polls s)\<rparr>)"
        by (auto simp: command_cases)
      show ?thesis
      proof (cases "paused s")
        case True
        with b c have s': "s' = time_sleep 0.1 (s\<lparr>polls := Suc (polls s)\<rparr>)"
          by (simp add: body_cases)
        from a True obtain began where "in_pause g = Some began" by (auto simp: agrees_def)
        with other(2) True have g: "spec_step w s g = g" by (simp add: spec_step_def)
        from a show ?thesis unfolding s' g by (simp add: agrees_def time_sleep_def)
      next
        case np: False
        with b c have s': "s' = acquire w (s\<lparr>polls := Suc (polls s)\<rparr>)"
          by (simp add: body_cases)
        from a np have "in_pause g = None" by (simp add: agrees_def)
        with other(1) np have g: "spec_step w s g =
            spec_sample w (s\<lparr>polls := Suc (polls s)\<rparr>)
              (ticks_calls (s\<lparr>polls := Suc (polls s)\<rparr>)) g"
          by (simp add: spec_step_def spec_sample_def)
        from a have "agrees w (s\<lparr>polls := Suc (polls s)\<rparr>) g" by (simp add: agrees_def)
        then show ?thesis unfolding s' g using np by (intro agrees_sample) simp_all
      qed
    qed
  qed
qed

lemma timed_agrees: "timed w b s g \<Longrightarrow> agrees w s g"
  by (induction rule: timed.induct) (simp_all add: agrees_start agrees_step)

lemma timed_top: "timed w b s g \<Longrightarrow> top_of_loop w b s"
  by (induction rule: timed.induct) (auto intro: top_of_loop.intros)

lemma top_timed: "top_of_loop w b s \<Longrightarrow> \<exists>g. timed w b s g"
  by (induction rule: top_of_loop.induct) (auto intro: timed.intros)

lemma paused_kept:
  assumes "paused s" and "keys w (polls s) \<noteq> Some ''r''"
  shows "paused (snd (command w s))" "pause_start (snd (command w s)) = pause_start s"
    "paused_time (snd (command w s)) = paused_time s"
  using assms by (simp_all add: command_cases)

lemma paused_body_kept:
  assumes "paused s" and "keys w (polls s) \<noteq> Some ''r''"
  shows "paused (snd (body w s))" "pause_start (snd (body w s)) = pause_start s"
    "paused_time (snd (body w s)) = paused_time s" "data (snd (body w s)) = data s"
  using assms by (simp_all add: body_cases command_cases time_sleep_def)

lemma exit_timed:
  assumes "top_of_loop w b s" and "loop w fuel s = Some (e, s')"
  shows "\<exists>s1 g1. timed w b s1 g1 \<and> data s' = data s1"
  using loop_result [OF assms(2,1)]
proof (elim disjE conjE exE)
  assume "top_of_loop w b s'"
  with top_timed [of w b s'] show ?thesis by auto
next
  fix s1
  assume t: "top_of_loop w b s1"
    and c: "command w s1 = (if e = Quit then Break else Raise_TypeError, s')"
  from top_timed [OF t] command_keepsD(1) [OF c] show ?thesis by auto
qed

text \<open>
  Claim C8. In a running iteration that stores a sample, the elapsed time stored is the
  reading of the clock taken in that iteration, minus the start reading \<open>t0\<close>, minus
  \<open>paused_time\<close>, divided by 1000. A resume command adds to \<open>paused_time\<close> exactly the
  resume reading minus the reading stored when the pause began; nothing else changes
  \<open>paused_time\<close>, and nothing changes \<open>t0\<close>. A pause command stores its reading as the
  start of the pause, and a paused iteration takes no reading and stores no sample. While
  the program is paused and is not resumed, \<open>paused\<close>, \<open>pause_start\<close>, \<open>paused_time\<close>
  and the samples stay as they are, whatever the keyboard delivers. Over a whole run:
  whenever the guard of the loop is tested, the program is paused exactly when the
  specification's account is in a pause, \<open>pause_start\<close> is then the timestamp at which
  that pause began, \<open>paused_time\<close> is the sum of the lengths of the completed pauses, and
  the elapsed time of every stored sample is the timestamp at which it was taken, minus the
  start timestamp, minus the sum of the lengths of the pauses completed before it, in
  seconds. The samples in the state in which the loop is left are those of such a state.
\<close>

theorem C8_elapsed_excludes_pauses:
  "(fst (read w (pins s)) = Some temp \<longrightarrow>
      data (acquire w s) =
        data s @ [(real_of_int ((clk w (ticks_calls s) - t0 s) - paused_time s) / 1000, temp)]) \<and>
   (keys w (polls s) = Some ''r'' \<and> paused s \<and> pause_start s = Some ps \<longrightarrow>
      fst (command w s) = Continue \<and> \<not> paused (snd (command w s)) \<and>
      paused_time (snd (command w s)) = paused_time s + (clk w (ticks_calls s) - ps)) \<and>
   (keys w (polls s) = Some ''p'' \<and> \<not> paused s \<longrightarrow>
      fst (command w s) = Continue \<and> paused (snd (command w s)) \<and>
      pause_start (snd (command w s)) = Some (clk w (ticks_calls s)) \<and>
      paused_time (snd (command w s)) = paused_time s) \<and>
   (\<not> (keys w (polls s) = Some ''r'' \<and> paused s) \<longrightarrow>
      paused_time (snd (command w s)) = paused_time s) \<and>
   paused_time (acquire w s) = paused_time s \<and> t0 (acquire w s) = t0 s \<and>
   t0 (snd (command w s)) = t0 s \<and>
   (fst (command w s) = Continue \<and> paused (snd (command w s)) \<longrightarrow>
      body w s = (Continue, time_sleep 0.1 (snd (command w s))) \<and>
      data (snd (body w s)) = data s \<and> pins (snd (body w s)) = pins s) \<and>
   (paused s \<and> keys w (polls s) \<noteq> Some ''r'' \<longrightarrow>
      paused (snd (command w s)) \<and> pause_start (snd (command w s)) = pause_start s \<and>
      paused_time (snd (command w s)) = paused_time s \<and>
      paused (snd (body w s)) \<and> pause_start (snd (body w s)) = pause_start s \<and>
      paused_time (snd (body w s)) = paused_time s \<and> data (snd (body w s)) = data s) \<and>
   (top_of_loop w b s \<longrightarrow> (\<exists>g. timed w b s g)) \<and>
   (timed w b s g \<longrightarrow>
      t0 s = clk w 1 \<and> paused s = (in_pause g \<noteq> None) \<and>
      (paused s \<longrightarrow> pause_start s = in_pause g) \<and>
      paused_time s = paused_total g \<and>
      map fst (data s) =
        map (\<lambda>tp. real_of_int ((fst tp - clk w 1) - snd tp) / 1000) (sampled g)) \<and>
   (top_of_loop w b s \<and> loop w fuel s = Some (e, s') \<longrightarrow>
      (\<exists>s1 g1. timed w b s1 g1 \<and> data s' = data s1))"
proof (intro conjI impI)
  assume "fst (read w (pins s)) = Some temp"
  then show "data (acquire w s) =
      data s @ [(real_of_int ((clk w (ticks_calls s) - t0 s) - paused_time s) / 1000, temp)]"
    by (simp add: acquire_cases)
next
  assume a: "keys w (polls s) = Some ''r'' \<and> paused s \<and> pause_start s = Some ps"
  then show "fst (command w s) = Continue" and "\<not> paused (snd (command w s))"
    and "paused_time (snd (command w s)) = paused_time s + (clk w (ticks_calls s) - ps)"
    by (simp_all add: command_cases key_names_differ)
next
  assume a: "keys w (polls s) = Some ''p'' \<and> \<not> paused s"
  then show "fst (command w s) = Continue" and "paused (snd (command w s))"
    and "pause_start (snd (command w s)) = Some (clk w (ticks_calls s))"
    and "paused_time (snd (command w s)) = paused_time s"
    by (simp_all add: command_cases)
next
  assume "\<not> (keys w (polls s) = Some ''r'' \<and> paused s)"
  then show "paused_time (snd (command w s)) = paused_time s"
    by (auto simp: command_cases)
next
  show "paused_time (acquire w s) = paused_time s" and "t0 (acquire w s) = t0 s"
    and "t0 (snd (command w s)) = t0 s"
    by (simp_all add: acquire_keeps command_keeps)
next
  assume a: "fst (command w s) = Continue \<and> paused (snd (command w s))"
  then show b: "body w s = (Continue, time_sleep 0.1 (snd (command w s)))"
    by (simp add: body_cases)
  show "data (snd (body w s)) = data s" and "pins (snd (body w s)) = pins s"
    unfolding b by (simp_all add: time_sleep_def command_keeps)
next
  assume a: "paused s \<and> keys w (polls s) \<noteq> Some ''r''"
  then have p: "paused s" and k: "keys w (polls s) \<noteq> Some ''r''" by simp_all
  show "paused (snd (command w s))" and "pause_start (snd (command w s)) = pause_start s"
    and "paused_time (snd (command w s)) = paused_time s"
    by (rule paused_kept [OF p k])+
  show "paused (snd (body w s))" and "pause_start (snd (body w s)) = pause_start s"
    and "paused_time (snd (body w s)) = paused_time s" and "data (snd (body w s)) = data s"
    by (rule paused_body_kept [OF p k])+
next
  assume "top_of_loop w b s"
  then show "\<exists>g. timed w b s g" by (rule top_timed)
next
  assume "timed w b s g"
  then have a: "agrees w s g" by (rule timed_agrees)
  then show "t0 s = clk w 1" and "paused s = (in_pause g \<noteq> None)"
    and "paused_time s = paused_total g"
    by (simp_all add: agrees_def)
  from a show "map fst (data s) =
      map (\<lambda>tp. real_of_int ((fst tp - clk w 1) - snd tp) / 1000) (sampled g)"
    by (simp add: agrees_def spec_elapsed_def [abs_def])
  assume "paused s"
  with a show "pause_start s = in_pause g" by (simp add: agrees_def)
next
  assume "top_of_loop w b s \<and> loop w fuel s = Some (e, s')"
  then show "\<exists>s1 g1. timed w b s1 g1 \<and> data s' = data s1"
    using exit_timed [of w b s fuel e s'] by simp
qed


lemma pause_run_reads:
  "fst (read pause_world (pins (pause_run 0))) = Some 25"
  "fst (read pause_world (pins (pause_run 3))) = Some 25"
  by (rule pattern_read, simp_all add: pause_world_simps pause_run_0_fields pause_run_3_fields)+

lemma pause_run_timed:
  "timed pause_world idle_bus (pause_run 4)
     \<lparr>in_pause = None, paused_total = 1000, sampled = [(2000, 0), (5000, 1000)]\<rparr>"
proof -
  let ?g0 = "\<lparr>in_pause = None, paused_total = 0, sampled = []\<rparr>"
  let ?g1 = "\<lparr>in_pause = None, paused_total = 0, sampled = [(2000, 0)]\<rparr>"
  let ?g2 = "\<lparr>in_pause = Some 3000, paused_total = 0, sampled = [(2000, 0)]\<rparr>"
  let ?g4 = "\<lparr>in_pause = None, paused_total = 1000, sampled = [(2000, 0), (5000, 1000)]\<rparr>"
  have 0: "timed pause_world idle_bus (pause_run 0) ?g0"
    unfolding pause_run_0 by (rule timed_first)
  have s0: "spec_step pause_world (pause_run 0) ?g0 = ?g1"
    by (simp add: spec_step_def spec_sample_def pause_run_reads pause_run_0_fields
        pause_world_simps)
  have 1: "timed pause_world idle_bus (pause_run (Suc 0)) ?g1"
    using timed_next [OF 0 _ pause_run_1_fields(9)]
    by (simp add: s0 pause_run_0_fields TOTAL_SAMPLES_def)
  have s1: "spec_step pause_world (pause_run (Suc 0)) ?g1 = ?g2"
    by (simp add: spec_step_def pause_run_1_fields pause_world_simps)
  have 2: "timed pause_world idle_bus (pause_run 2) ?g2"
    using timed_next [OF 1 _ pause_run_2_fields(10)]
    by (simp add: s1 pause_run_1_fields TOTAL_SAMPLES_def)
  have s2: "spec_step pause_world (pause_run 2) ?g2 = ?g2"
    by (simp add: spec_step_def pause_run_2_fields pause_world_simps)
  have 3: "timed pause_world idle_bus (pause_run 3) ?g2"
    using timed_next [OF 2 _ pause_run_3_fields(10)]
    by (simp add: s2 pause_run_2_fields TOTAL_SAMPLES_def)
  have s3: "spec_step pause_world (pause_run 3) ?g2 = ?g4"
    by (simp add: spec_step_def spec_sample_def pause_run_reads pause_run_3_fields
        pause_world_simps)
  show ?thesis
    using timed_next [OF 3 _ pause_run_4_fields(5)]
    by (simp add: s3 pause_run_3_fields TOTAL_SAMPLES_def)
qed

theorem C8_elapsed_excludes_pauses_witness:
  "paused_time (snd (command pause_world (pause_run 3))) = 1000 \<and>
   data (acquire pause_world (snd (command pause_world (pause_run 3)))) = [(1, 25), (3, 25)] \<and>
   timed pause_world idle_bus (pause_run 4)
     \<lparr>in_pause = None, paused_total = 1000, sampled = [(2000, 0), (5000, 1000)]\<rparr> \<and>
   t0 (pause_run 4) = 1000 \<and> paused_time (pause_run 4) = 1000 \<and>
   map fst (data (pause_run 4)) = [(2000 - 1000 - 0) / 1000, (5000 - 1000 - 1000) / 1000]"
proof -
  let ?s1 = "snd (command pause_world (pause_run 3))"
  let ?g4 = "\<lparr>in_pause = None, paused_total = 1000, sampled = [(2000, 0), (5000, 1000)]\<rparr>"
  have k: "keys pause_world (polls (pause_run 3)) = Some ''r'' \<and> paused (pause_run 3) \<and>
           pause_start (pause_run 3) = Some 3000"
    by (simp add: pause_run_3_fields pause_world_simps)
  from C8_elapsed_excludes_pauses [of pause_world "pause_run 3" _ 3000] k
  have p: "paused_time ?s1 = 1000"
    by (simp add: pause_run_3_fields pause_world_simps)
  have r: "fst (read pause_world (pins ?s1)) = Some 25"
    by (rule pattern_read) (simp_all add: pause_world_simps command_keeps pause_run_3_fields)
  have f: "ticks_calls ?s1 = 5" "t0 ?s1 = 1000" "data ?s1 = [(1, 25)]"
    by (simp_all add: pause_run_4_fields(6) pause_run_3_fields)
  from C8_elapsed_excludes_pauses [of pause_world ?s1 25] r
  have "data (acquire pause_world ?s1) =
      data ?s1 @ [(real_of_int ((clk pause_world (ticks_calls ?s1) - t0 ?s1) - paused_time ?s1) / 1000, 25)]"
    by blast
  with p f have d: "data (acquire pause_world ?s1) = [(1, 25), (3, 25)]"
    by (simp add: pause_world_simps)
  from C8_elapsed_excludes_pauses [of pause_world "pause_run 4" _ _ idle_bus ?g4] pause_run_timed
  have "t0 (pause_run 4) = clk pause_world 1" and "paused_time (pause_run 4) = paused_total ?g4"
    and "map fst (data (pause_run 4)) =
      map (\<lambda>tp. real_of_int ((fst tp - clk pause_world 1) - snd tp) / 1000) (sampled ?g4)"
    by blast+
  then have "t0 (pause_run 4) = 1000" and "paused_time (pause_run 4) = 1000"
    and "map fst (data (pause_run 4)) = [(2000 - 1000 - 0) / 1000, (5000 - 1000 - 1000) / 1000]"
    by (simp_all add: pause_world_simps)
  with p d pause_run_timed show ?thesis by simp
qed

section \<open>The whole program\<close>

lemma body_files:
  assumes "body w s = (c, s')"
  shows "files s' = files s"
proof (cases "command w s")
  case (Pair c1 s1)
  with assms command_keepsD [OF Pair] show ?thesis
    by (auto simp: body_cases time_sleep_def acquire_keeps split: if_splits)
qed

lemma top_files: "top_of_loop w b s \<Longrightarrow> files s = []"
  by (induction rule: top_of_loop.induct) (simp_all add: start_facts body_files)

text \<open>
  The whole program returns in that environment: 180 iterations suffice, the loop is left
  by its guard and one file with 180 rows is written.
\<close>

lemma steady_main:
  "\<exists>s name. main steady_world 180 idle_bus = Some (Quota, s) \<and> length (data s) = 180 \<and>
       files s = [(name, ''time_seconds,temperature_C'', data s)]"
proof -
  obtain name s0 where st: "start steady_world idle_bus = (name, s0)"
    by (cases "start steady_world idle_bus")
  from steady_run st obtain s' where l: "loop steady_world 180 s0 = Some (Quota, s')" by auto
  have t: "top_of_loop steady_world idle_bus s0"
    using top_of_loop.first [of steady_world idle_bus] st by simp
  from loop_final [OF t l] have n: "length (data s') = 180" by (simp add: TOTAL_SAMPLES_def)
  from loop_result [OF l t] have "top_of_loop steady_world idle_bus s'" by simp
  then have f: "files s' = []" by (rule top_files)
  let ?s = "finish name (py_print (Text ''STOP'') s')"
  have m: "main steady_world 180 idle_bus = Some (Quota, ?s)"
    by (simp add: main_def st l)
  from n have "data s' \<noteq> []" by auto
  then have "data ?s = data s'" and "files ?s = [(name, ''time_seconds,temperature_C'', data s')]"
    using f by (simp_all add: finish_def write_csv_def py_print_def)
  with m n show ?thesis by simp
qed

end
